theory Spec2Isabelle
  imports Main "HOL-Library.Multiset" "HOL-Library.Char_ord" "HOL-Library.List_Lexorder"
    "HOL-Library.Product_Lexorder"
begin

section \<open>Errors\<close>

text \<open>
  Every failure of the program is a \<^verbatim>\<open>throw std::runtime_error(msg)\<close>; the kinds of
  error are told apart by the message only. An operation that may throw returns
  \<open>exn + 'a\<close>, with \<open>Inl\<close> for the exception.
\<close>

datatype exn = runtime_error string

definition InvalidTokenError :: exn where
  "InvalidTokenError = runtime_error ''Invalid token''"

definition UnbalancedParenError :: exn where
  "UnbalancedParenError = runtime_error ''Unbalanced parens!''"

definition UnknownVariableError :: exn where
  "UnknownVariableError = runtime_error ''Unknown variable''"

definition HuhError :: exn where
  "HuhError = runtime_error ''Huh??''"

definition UnexpectedCloseBraceError :: exn where
  "UnexpectedCloseBraceError = runtime_error (''Unexpected '' @ [CHR 0x27] @ ''}'' @ [CHR 0x27])"

definition IncompleteInputError :: exn where
  "IncompleteInputError = runtime_error ''Could not parse!''"

section \<open>Set terms: \<^verbatim>\<open>SLC_set\<close>\<close>

text \<open>
  \<^verbatim>\<open>using SLC_element = std::variant<std::string_view, std::shared_ptr<SLC_set>, int>\<close>
  and \<^verbatim>\<open>struct SLC_set { std::set<SLC_element> elements; ... }\<close>.

  A shared pointer is modelled by the address it holds together with the object it
  points to: every object is created by \<^verbatim>\<open>std::make_shared\<close> from a finished value and
  is never written again, so the pointee is a value. The address is kept because
  \<^verbatim>\<open>std::set\<close> orders shared pointers by address.

  A \<^verbatim>\<open>std::set\<close> is modelled by the list of its elements in iteration order, that
  is, strictly ascending for \<^verbatim>\<open>operator<\<close> of the variant.
\<close>

datatype SLC_element = StringView string | SharedPtr nat SLC_set | IntVal int
and SLC_set = SLC_set (elements: "SLC_element list")

text \<open>
  \<^verbatim>\<open>operator<\<close> of \<^verbatim>\<open>std::variant\<close>: the alternative's index first (string view 0,
  shared pointer 1, int 2), then the values: string views bytewise lexicographically,
  shared pointers by address, ints by value.
\<close>

fun variant_less :: "SLC_element \<Rightarrow> SLC_element \<Rightarrow> bool" where
  "variant_less (StringView s) (StringView t) = (s < t)"
| "variant_less (StringView s) (SharedPtr b y) = True"
| "variant_less (StringView s) (IntVal j) = True"
| "variant_less (SharedPtr a x) (StringView t) = False"
| "variant_less (SharedPtr a x) (SharedPtr b y) = (a < b)"
| "variant_less (SharedPtr a x) (IntVal j) = True"
| "variant_less (IntVal i) (StringView t) = False"
| "variant_less (IntVal i) (SharedPtr b y) = False"
| "variant_less (IntVal i) (IntVal j) = (i < j)"

text \<open>
  \<^verbatim>\<open>elements.insert(e)\<close>: the element goes to its place in the order, unless an
  equivalent element (neither less than the other) is there already.
\<close>

fun set_insert :: "SLC_element \<Rightarrow> SLC_element list \<Rightarrow> SLC_element list" where
  "set_insert e [] = [e]"
| "set_insert e (x # xs) =
     (if variant_less e x then e # x # xs
      else if variant_less x e then x # set_insert e xs
      else x # xs)"

definition insert_element :: "SLC_element \<Rightarrow> SLC_set \<Rightarrow> SLC_set" where
  "insert_element e s = SLC_set (set_insert e (elements s))"

definition empty_set :: SLC_set where
  "empty_set = SLC_set []"

text \<open>\<^verbatim>\<open>out << int\<close>: the decimal digits, after a minus sign for a negative number.\<close>

fun string_of_nat :: "nat \<Rightarrow> string" where
  "string_of_nat n =
     (if n < 10 then [''0123456789'' ! n]
      else string_of_nat (n div 10) @ [''0123456789'' ! (n mod 10)])"

declare string_of_nat.simps [simp del]

definition string_of_int :: "int \<Rightarrow> string" where
  "string_of_int i = (if i < 0 then ''-'' @ string_of_nat (nat (- i)) else string_of_nat (nat i))"

text \<open>
  \<^verbatim>\<open>SLC_set::to_string\<close>: the elements in iteration order between braces, \<^verbatim>\<open>", "\<close>
  before every element but the first.
\<close>

fun to_string :: "SLC_set \<Rightarrow> string"
and put_elements :: "bool \<Rightarrow> SLC_element list \<Rightarrow> string"
and put_element :: "SLC_element \<Rightarrow> string" where
  "to_string (SLC_set es) = ''{'' @ put_elements True es @ ''}''"
| "put_elements first [] = []"
| "put_elements first (e # es) =
     (if first then [] else '', '') @ put_element e @ put_elements False es"
| "put_element (StringView s) = s"
| "put_element (IntVal i) = string_of_int i"
| "put_element (SharedPtr a s) = to_string s"

section \<open>Heap allocation\<close>

text \<open>
  \<^verbatim>\<open>std::make_shared<SLC_set>(std::move(s))\<close> creates a new heap object. No set term
  is destroyed while a conversion or a structural parse runs (terms are moved, never
  copied, into their owners), so all the objects made during one run are alive together
  and their addresses are pairwise distinct; nothing else is known about them. The
  address of the \<open>k\<close>-th object made is \<open>al k\<close>, for an allocator \<open>al\<close> that is a
  parameter of every operation; the operations pass the number of objects made so far.
\<close>

type_synonym allocator = "nat \<Rightarrow> nat"

definition make_shared :: "allocator \<Rightarrow> nat \<Rightarrow> SLC_set \<Rightarrow> SLC_element \<times> nat" where
  "make_shared al k s = (SharedPtr (al k) s, Suc k)"

section \<open>Numerals: \<^verbatim>\<open>ULC_converter::make_number\<close>\<close>

text \<open>The loop \<^verbatim>\<open>for (int i = 1; i < number; i++)\<close> adding one empty set per round.\<close>

function make_number_loop :: "allocator \<Rightarrow> nat \<Rightarrow> int \<Rightarrow> int \<Rightarrow> SLC_set \<Rightarrow> SLC_set \<times> nat" where
  "make_number_loop al k i number num_top =
     (if i < number then
        (let extra = empty_set;
             (p, k') = make_shared al k extra
         in make_number_loop al k' (i + 1) number (insert_element p num_top))
      else (num_top, k))"
  by pat_completeness auto
termination
  by (relation "measure (\<lambda>(al, k, i, number, num_top). nat (number - i))") auto

declare make_number_loop.simps [simp del]

definition make_number :: "allocator \<Rightarrow> nat \<Rightarrow> int \<Rightarrow> SLC_set \<times> nat" where
  "make_number al k number =
     (let num_base_r = empty_set;
          num_base_l = empty_set;
          num_base = empty_set;
          (p_r, k1) = make_shared al k num_base_r;
          num_base = insert_element p_r num_base;
          (p_l, k2) = make_shared al k1 num_base_l;
          num_base = insert_element p_l num_base;
          num_top = empty_set;
          (p_base, k3) = make_shared al k2 num_base;
          num_top = insert_element p_base num_top
      in make_number_loop al k3 1 number num_top)"

section \<open>Structural parser: \<^verbatim>\<open>toposet_parser::parse_toposet\<close>\<close>

text \<open>
  The loop over the characters of the text. The stack \<^verbatim>\<open>stk\<close> is a list, its top
  first. \<open>k\<close> is the number of heap objects made so far.
\<close>

fun parse_toposet_loop :: "allocator \<Rightarrow> nat \<Rightarrow> SLC_set list \<Rightarrow> string \<Rightarrow> exn + SLC_set" where
  "parse_toposet_loop al k stk [] = Inl IncompleteInputError"
| "parse_toposet_loop al k stk (ch # rest) =
     (if ch = CHR ''{'' then
        (let next = empty_set in parse_toposet_loop al k (next # stk) rest)
      else if ch = CHR ''}'' then
        (case stk of
           [] \<Rightarrow> Inl UnexpectedCloseBraceError
         | completed_set # stk' \<Rightarrow>
             (case stk' of
                top_set # stk'' \<Rightarrow>
                  (let (p, k') = make_shared al k completed_set
                   in parse_toposet_loop al k' (insert_element p top_set # stk'') rest)
              | [] \<Rightarrow> Inr completed_set))
      else parse_toposet_loop al k stk rest)"

definition parse_toposet :: "allocator \<Rightarrow> nat \<Rightarrow> string \<Rightarrow> exn + SLC_set" where
  "parse_toposet al k str = parse_toposet_loop al k [] str"

section \<open>Lexer: \<^verbatim>\<open>ULC_lexer\<close>\<close>

datatype ULC_token_type = LAMBDA | VARIABLE | DOT | O_PAREN | C_PAREN | EOF_TOK

datatype ULC_token = ULC_token (tok_type: ULC_token_type) (tok_text: string)

text \<open>The members \<^verbatim>\<open>text_\<close> and \<^verbatim>\<open>pos_\<close>.\<close>

record ULC_lexer =
  lexer_text :: string
  lexer_pos :: nat

text \<open>\<^verbatim>\<open>std::isspace\<close> and \<^verbatim>\<open>std::isalnum\<close> in the C locale.\<close>

definition isspace :: "char \<Rightarrow> bool" where
  "isspace ch = (ch = CHR '' '' \<or> (9 \<le> (of_char ch :: nat) \<and> (of_char ch :: nat) \<le> 13))"

definition isalnum :: "char \<Rightarrow> bool" where
  "isalnum ch =
     (let c = (of_char ch :: nat)
      in (48 \<le> c \<and> c \<le> 57) \<or> (65 \<le> c \<and> c \<le> 90) \<or> (97 \<le> c \<and> c \<le> 122))"

text \<open>
  The whitespace loop of \<^verbatim>\<open>next_token\<close>, entered with \<open>pos < length text\<close>: \<open>None\<close>
  when the end of the text is reached (the end-of-input token is returned from inside
  the loop), else the position of the first character that is not white space.
\<close>

function skip_space :: "string \<Rightarrow> nat \<Rightarrow> nat option" where
  "skip_space text pos =
     (if isspace (text ! pos) then
        (if Suc pos \<ge> length text then None else skip_space text (Suc pos))
      else Some pos)"
  by pat_completeness auto
termination
  by (relation "measure (\<lambda>(text, pos). length text - pos)") auto

declare skip_space.simps [simp del]

text \<open>The loop over an alphanumeric run, entered with \<open>pos < length text\<close>.\<close>

function scan_alnum :: "string \<Rightarrow> nat \<Rightarrow> nat" where
  "scan_alnum text pos =
     (if isalnum (text ! pos) then
        (if Suc pos \<ge> length text then Suc pos else scan_alnum text (Suc pos))
      else pos)"
  by pat_completeness auto
termination
  by (relation "measure (\<lambda>(text, pos). length text - pos)") auto

declare scan_alnum.simps [simp del]

definition substr :: "string \<Rightarrow> nat \<Rightarrow> nat \<Rightarrow> string" where
  "substr text pos n = take n (drop pos text)"

definition lexer_next_token :: "ULC_lexer \<Rightarrow> exn + ULC_token \<times> ULC_lexer" where
  "lexer_next_token lx =
     (if lexer_pos lx \<ge> length (lexer_text lx) then Inr (ULC_token EOF_TOK [], lx)
      else
        (case skip_space (lexer_text lx) (lexer_pos lx) of
           None \<Rightarrow> Inr (ULC_token EOF_TOK [], lx\<lparr>lexer_pos := length (lexer_text lx)\<rparr>)
         | Some original_pos \<Rightarrow>
             (let ch = lexer_text lx ! original_pos in
              if ch = CHR ''.'' then
                Inr (ULC_token DOT ''.'', lx\<lparr>lexer_pos := Suc original_pos\<rparr>)
              else if ch = CHR 0x5C then
                Inr (ULC_token LAMBDA [CHR 0x5C], lx\<lparr>lexer_pos := Suc original_pos\<rparr>)
              else if ch = CHR ''('' then
                Inr (ULC_token O_PAREN ''('', lx\<lparr>lexer_pos := Suc original_pos\<rparr>)
              else if ch = CHR '')'' then
                Inr (ULC_token C_PAREN '')'', lx\<lparr>lexer_pos := Suc original_pos\<rparr>)
              else if isalnum ch then
                (let pos = scan_alnum (lexer_text lx) original_pos
                 in Inr (ULC_token VARIABLE (substr (lexer_text lx) original_pos (pos - original_pos)),
                      lx\<lparr>lexer_pos := pos\<rparr>))
              else Inl InvalidTokenError)))"

section \<open>Abstract syntax: \<^verbatim>\<open>ULC_AST_node\<close>\<close>

text \<open>
  The node struct has a type tag, two owning pointers and a token. The parser fills them
  in four ways only, which are the constructors here:
  \<^item> \<open>APPLICATION left right\<close>: both children are set;
  \<^item> \<open>DEFINITION v left\<close>: \<^verbatim>\<open>right\<close> is the atomic node of the bound variable, of which
    only \<^verbatim>\<open>value.text\<close> = \<open>v\<close> is ever read, \<^verbatim>\<open>left\<close> is the body;
  \<^item> \<open>ATOMIC v\<close>: \<^verbatim>\<open>value\<close> is a variable token with text \<open>v\<close>;
  \<^item> \<open>GROUP right\<close>: \<^verbatim>\<open>right\<close> is the parenthesised expression, or null.

  A pointer to a node that may be null is a \<open>ULC_AST_node option\<close>.
\<close>

datatype ULC_AST_node =
    APPLICATION ULC_AST_node ULC_AST_node
  | DEFINITION string ULC_AST_node
  | ATOMIC string
  | GROUP "ULC_AST_node option"

section \<open>Parser: \<^verbatim>\<open>ULC_parser\<close>\<close>

text \<open>The members \<^verbatim>\<open>lexer_\<close>, \<^verbatim>\<open>tokens_\<close> and \<^verbatim>\<open>token_id_\<close>.\<close>

record ULC_parser =
  parser_lexer :: ULC_lexer
  parser_tokens :: "ULC_token list"
  parser_token_id :: nat

text \<open>The constructor reads the first token.\<close>

definition new_parser :: "ULC_lexer \<Rightarrow> exn + ULC_parser" where
  "new_parser lx =
     (case lexer_next_token lx of
        Inl e \<Rightarrow> Inl e
      | Inr (t, lx') \<Rightarrow> Inr \<lparr>parser_lexer = lx', parser_tokens = [t], parser_token_id = 0\<rparr>)"

definition peek :: "ULC_parser \<Rightarrow> ULC_token" where
  "peek p = parser_tokens p ! parser_token_id p"

text \<open>\<^verbatim>\<open>ULC_parser::next_token\<close>; no caller reads the token it returns.\<close>

definition parser_next_token :: "ULC_parser \<Rightarrow> exn + ULC_parser" where
  "parser_next_token p =
     (let p = p\<lparr>parser_token_id := Suc (parser_token_id p)\<rparr> in
      if parser_token_id p \<ge> length (parser_tokens p) then
        (case lexer_next_token (parser_lexer p) of
           Inl e \<Rightarrow> Inl e
         | Inr (t, lx') \<Rightarrow> Inr (p\<lparr>parser_lexer := lx', parser_tokens := parser_tokens p @ [t]\<rparr>))
      else Inr p)"

definition consume_type :: "ULC_token_type \<Rightarrow> ULC_parser \<Rightarrow> exn + bool \<times> ULC_parser" where
  "consume_type ty p =
     (if tok_type (peek p) = ty then
        (case parser_next_token p of Inl e \<Rightarrow> Inl e | Inr p' \<Rightarrow> Inr (True, p'))
      else Inr (False, p))"

definition consume_variable :: "ULC_parser \<Rightarrow> exn + ULC_AST_node option \<times> ULC_parser" where
  "consume_variable p =
     (if tok_type (peek p) = VARIABLE then
        (case parser_next_token p of
           Inl e \<Rightarrow> Inl e
         | Inr p' \<Rightarrow> Inr (Some (ATOMIC (tok_text (peek p))), p'))
      else Inr (None, p))"

text \<open>
  The recursive descent. The functions call each other with a parser state that an
  earlier call returned, so they are defined by recursion on a bound on the depth of the
  calls, their first argument; \<open>None\<close> means that the bound was reached.
  \<open>parse_applications\<close> is the \<^verbatim>\<open>while (true)\<close> loop of \<^verbatim>\<open>parse_expression\<close>, entered
  with the head parsed so far. A null pointer to a node is \<open>None\<close> in the second
  component of a result.
\<close>

type_synonym parse_result = "(exn + ULC_AST_node option \<times> ULC_parser) option"

fun parse_expression :: "nat \<Rightarrow> ULC_parser \<Rightarrow> parse_result"
and parse_abstraction :: "nat \<Rightarrow> ULC_parser \<Rightarrow> parse_result"
and parse_applications :: "nat \<Rightarrow> ULC_AST_node \<Rightarrow> ULC_parser \<Rightarrow> parse_result"
and parse_atomic :: "nat \<Rightarrow> ULC_parser \<Rightarrow> parse_result" where
  "parse_expression 0 p = None"
| "parse_expression (Suc n) p =
     (if tok_type (peek p) = LAMBDA then parse_abstraction n p
      else
        (case parse_atomic n p of
           None \<Rightarrow> None
         | Some (Inl e) \<Rightarrow> Some (Inl e)
         | Some (Inr (None, p')) \<Rightarrow> Some (Inr (None, p'))
         | Some (Inr (Some head, p')) \<Rightarrow> parse_applications n head p'))"
| "parse_abstraction 0 p = None"
| "parse_abstraction (Suc n) p =
     (let original_id = parser_token_id p in
      case consume_type LAMBDA p of
        Inl e \<Rightarrow> Some (Inl e)
      | Inr (False, p1) \<Rightarrow> Some (Inr (None, p1\<lparr>parser_token_id := original_id\<rparr>))
      | Inr (True, p1) \<Rightarrow>
          (case consume_variable p1 of
             Inl e \<Rightarrow> Some (Inl e)
           | Inr (None, p2) \<Rightarrow> Some (Inr (None, p2\<lparr>parser_token_id := original_id\<rparr>))
           | Inr (Some var, p2) \<Rightarrow>
               (case consume_type DOT p2 of
                  Inl e \<Rightarrow> Some (Inl e)
                | Inr (False, p3) \<Rightarrow> Some (Inr (None, p3\<lparr>parser_token_id := original_id\<rparr>))
                | Inr (True, p3) \<Rightarrow>
                    (case parse_expression n p3 of
                       None \<Rightarrow> None
                     | Some (Inl e) \<Rightarrow> Some (Inl e)
                     | Some (Inr (None, p4)) \<Rightarrow>
                         Some (Inr (None, p4\<lparr>parser_token_id := original_id\<rparr>))
                     | Some (Inr (Some expr, p4)) \<Rightarrow>
                         Some (Inr (Some (DEFINITION (case var of ATOMIC v \<Rightarrow> v | _ \<Rightarrow> []) expr),
                           p4))))))"
| "parse_applications 0 head p = None"
| "parse_applications (Suc n) head p =
     (if tok_type (peek p) = VARIABLE \<or> tok_type (peek p) = O_PAREN then
        (case parse_atomic n p of
           None \<Rightarrow> None
         | Some (Inl e) \<Rightarrow> Some (Inl e)
         | Some (Inr (None, p')) \<Rightarrow> Some (Inr (Some head, p'))
         | Some (Inr (Some next_arg, p')) \<Rightarrow>
             parse_applications n (APPLICATION head next_arg) p')
      else Some (Inr (Some head, p)))"
| "parse_atomic 0 p = None"
| "parse_atomic (Suc n) p =
     (case consume_type O_PAREN p of
        Inl e \<Rightarrow> Some (Inl e)
      | Inr (True, p1) \<Rightarrow>
          (case parse_expression n p1 of
             None \<Rightarrow> None
           | Some (Inl e) \<Rightarrow> Some (Inl e)
           | Some (Inr (right, p2)) \<Rightarrow>
               (case consume_type C_PAREN p2 of
                  Inl e \<Rightarrow> Some (Inl e)
                | Inr (False, p3) \<Rightarrow> Some (Inl UnbalancedParenError)
                | Inr (True, p3) \<Rightarrow> Some (Inr (Some (GROUP right), p3))))
      | Inr (False, p1) \<Rightarrow> Some (consume_variable p1))"

text \<open>
  \<^verbatim>\<open>ULC_converter(std::string_view text)\<close> up to \<^verbatim>\<open>parser.parse()\<close>: a lexer on the
  text, a parser on the lexer, and \<^verbatim>\<open>parse\<close>, which is \<^verbatim>\<open>parse_expression\<close>. The depth
  of the calls is bounded by twice the length of the text and three more; the section on
  the parser shows that this bound is never reached, so that \<open>parse_text\<close> always gives
  \<open>Some\<close> outcome: the parser terminates on every text.
\<close>

definition parse :: "nat \<Rightarrow> ULC_parser \<Rightarrow> parse_result" where
  "parse n p = parse_expression n p"

definition parse_text :: "string \<Rightarrow> (exn + ULC_AST_node option) option" where
  "parse_text text =
     (case new_parser \<lparr>lexer_text = text, lexer_pos = 0\<rparr> of
        Inl e \<Rightarrow> Some (Inl e)
      | Inr p \<Rightarrow>
          (case parse (2 * length text + 3) p of
             None \<Rightarrow> None
           | Some (Inl e) \<Rightarrow> Some (Inl e)
           | Some (Inr (root, p')) \<Rightarrow> Some (Inr root)))"

section \<open>Converter: \<^verbatim>\<open>ULC_converter\<close>\<close>

text \<open>
  \<^verbatim>\<open>std::find(captured.begin(), captured.end(), var_name)\<close> followed by
  \<^verbatim>\<open>std::distance(captured.begin(), it)\<close>: the index of the first occurrence, \<open>None\<close>
  for \<^verbatim>\<open>captured.end()\<close>.
\<close>

fun find_distance :: "string list \<Rightarrow> string \<Rightarrow> nat option" where
  "find_distance [] var_name = None"
| "find_distance (c # captured) var_name =
     (if c = var_name then Some 0
      else (case find_distance captured var_name of None \<Rightarrow> None | Some d \<Rightarrow> Some (Suc d)))"

text \<open>The lambda marker \<^verbatim>\<open>"\<lambda>"\<close> of the source, two bytes in UTF-8.\<close>

definition lambda_marker :: string where
  "lambda_marker = [CHR 0xCE, CHR 0xBB]"

text \<open>
  \<^verbatim>\<open>convert_subset_dbj(node, lambda_depth, captured)\<close>. The vector \<^verbatim>\<open>captured\<close> is
  passed by value, so the \<^verbatim>\<open>erase\<close> that ends the \<^verbatim>\<open>DEFINITION\<close> case changes a copy
  that is dropped at the return. An atomic node matches no case of the switch and
  reaches the final \<^verbatim>\<open>return ret_set\<close>. The depth \<^verbatim>\<open>lambda_depth\<close> is passed on and
  never read. A position is at most the number of enclosing definitions, far from the
  bounds of \<^verbatim>\<open>int\<close>, so integers are those of \<open>int\<close>. \<open>k\<close> is the number of heap
  objects made so far, returned updated.
\<close>

fun convert_subset_dbj ::
  "allocator \<Rightarrow> nat \<Rightarrow> ULC_AST_node option \<Rightarrow> int \<Rightarrow> string list \<Rightarrow> exn + SLC_set \<times> nat" where
  "convert_subset_dbj al k None lambda_depth captured = Inr (empty_set, k)"
| "convert_subset_dbj al k (Some (DEFINITION v left)) lambda_depth captured =
     (let ret_set = insert_element (StringView lambda_marker) empty_set;
          captured = v # captured
      in case left of
           ATOMIC var_name \<Rightarrow>
             (case find_distance captured var_name of
                None \<Rightarrow> Inl UnknownVariableError
              | Some d \<Rightarrow> Inr (insert_element (IntVal (int d + 1)) ret_set, k))
         | _ \<Rightarrow>
             (case convert_subset_dbj al k (Some left) (lambda_depth + 1) captured of
                Inl e \<Rightarrow> Inl e
              | Inr (sub_set, k1) \<Rightarrow>
                  (let (p, k2) = make_shared al k1 sub_set
                   in Inr (insert_element p ret_set, k2))))"
| "convert_subset_dbj al k (Some (APPLICATION left right)) lambda_depth captured =
     (let ret_set = empty_set;
          promote_set = empty_set
      in case
           (case left of
              ATOMIC var_name \<Rightarrow>
                (case find_distance captured var_name of
                   None \<Rightarrow> Inl UnknownVariableError
                 | Some d \<Rightarrow> Inr (insert_element (IntVal (int d + 1)) promote_set, k))
            | _ \<Rightarrow>
                (case convert_subset_dbj al k (Some left) lambda_depth captured of
                   Inl e \<Rightarrow> Inl e
                 | Inr (sub_set, k1) \<Rightarrow>
                     (let (p, k2) = make_shared al k1 sub_set
                      in Inr (insert_element p promote_set, k2))))
         of
           Inl e \<Rightarrow> Inl e
         | Inr (promote_set, k3) \<Rightarrow>
             (let (pp, k4) = make_shared al k3 promote_set;
                  ret_set = insert_element pp ret_set
              in case right of
                   ATOMIC var_name \<Rightarrow>
                     (case find_distance captured var_name of
                        None \<Rightarrow> Inl UnknownVariableError
                      | Some d \<Rightarrow> Inr (insert_element (IntVal (int d + 1)) ret_set, k4))
                 | _ \<Rightarrow>
                     (case convert_subset_dbj al k4 (Some right) lambda_depth captured of
                        Inl e \<Rightarrow> Inl e
                      | Inr (sub_set, k5) \<Rightarrow>
                          (let (p, k6) = make_shared al k5 sub_set
                           in Inr (insert_element p ret_set, k6)))))"
| "convert_subset_dbj al k (Some (GROUP right)) lambda_depth captured =
     convert_subset_dbj al k right lambda_depth captured"
| "convert_subset_dbj al k (Some (ATOMIC v)) lambda_depth captured = Inr (empty_set, k)"

text \<open>
  \<^verbatim>\<open>convert_subset(node, lambda_depth, captured)\<close>, the name-preserving mode. The
  number is made before the object that holds it. An atomic node matches no case of the
  switch and reaches the final \<^verbatim>\<open>throw std::runtime_error("Huh??")\<close>.
\<close>

definition number_element :: "allocator \<Rightarrow> nat \<Rightarrow> int \<Rightarrow> SLC_element \<times> nat" where
  "number_element al k position =
     (let (num, k1) = make_number al k position in make_shared al k1 num)"

fun convert_subset ::
  "allocator \<Rightarrow> nat \<Rightarrow> ULC_AST_node option \<Rightarrow> int \<Rightarrow> string list \<Rightarrow> exn + SLC_set \<times> nat" where
  "convert_subset al k None lambda_depth captured = Inr (empty_set, k)"
| "convert_subset al k (Some (DEFINITION v left)) lambda_depth captured =
     (let ret_set = empty_set;
          lambda_top = empty_set;
          lambda_base = empty_set;
          (pb, k1) = make_shared al k lambda_base;
          lambda_top = insert_element pb lambda_top;
          (pt, k2) = make_shared al k1 lambda_top;
          ret_set = insert_element pt ret_set;
          captured = v # captured
      in case left of
           ATOMIC var_name \<Rightarrow>
             (case find_distance captured var_name of
                None \<Rightarrow> Inl UnknownVariableError
              | Some d \<Rightarrow>
                  (let (p, k3) = number_element al k2 (int d + 1)
                   in Inr (insert_element p ret_set, k3)))
         | _ \<Rightarrow>
             (case convert_subset al k2 (Some left) (lambda_depth + 1) captured of
                Inl e \<Rightarrow> Inl e
              | Inr (sub_set, k3) \<Rightarrow>
                  (let (p, k4) = make_shared al k3 sub_set
                   in Inr (insert_element p ret_set, k4))))"
| "convert_subset al k (Some (APPLICATION left right)) lambda_depth captured =
     (let ret_set = empty_set;
          promote_set = empty_set
      in case
           (case left of
              ATOMIC var_name \<Rightarrow>
                (case find_distance captured var_name of
                   None \<Rightarrow> Inl UnknownVariableError
                 | Some d \<Rightarrow>
                     (let (p, k1) = number_element al k (int d + 1)
                      in Inr (insert_element p promote_set, k1)))
            | _ \<Rightarrow>
                (case convert_subset al k (Some left) lambda_depth captured of
                   Inl e \<Rightarrow> Inl e
                 | Inr (sub_set, k1) \<Rightarrow>
                     (let (p, k2) = make_shared al k1 sub_set
                      in Inr (insert_element p promote_set, k2))))
         of
           Inl e \<Rightarrow> Inl e
         | Inr (promote_set, k3) \<Rightarrow>
             (let (pp, k4) = make_shared al k3 promote_set;
                  ret_set = insert_element pp ret_set
              in case right of
                   ATOMIC var_name \<Rightarrow>
                     (case find_distance captured var_name of
                        None \<Rightarrow> Inl UnknownVariableError
                      | Some d \<Rightarrow>
                          (let (p, k5) = number_element al k4 (int d + 1)
                           in Inr (insert_element p ret_set, k5)))
                 | _ \<Rightarrow>
                     (case convert_subset al k4 (Some right) lambda_depth captured of
                        Inl e \<Rightarrow> Inl e
                      | Inr (sub_set, k5) \<Rightarrow>
                          (let (p, k6) = make_shared al k5 sub_set
                           in Inr (insert_element p ret_set, k6)))))"
| "convert_subset al k (Some (GROUP right)) lambda_depth captured =
     convert_subset al k right lambda_depth captured"
| "convert_subset al k (Some (ATOMIC v)) lambda_depth captured = Inl HuhError"

text \<open>\<^verbatim>\<open>convert_dbj()\<close> and \<^verbatim>\<open>convert()\<close>, on the root the converter holds.\<close>

definition convert_dbj :: "allocator \<Rightarrow> nat \<Rightarrow> ULC_AST_node option \<Rightarrow> exn + SLC_set \<times> nat" where
  "convert_dbj al k root = (let captured = [] in convert_subset_dbj al k root 0 captured)"

definition convert :: "allocator \<Rightarrow> nat \<Rightarrow> ULC_AST_node option \<Rightarrow> exn + SLC_set \<times> nat" where
  "convert al k root = (let captured = [] in convert_subset al k root 0 captured)"

text \<open>
  The two lines of \<^verbatim>\<open>display\<close> that print a term: the converter is made from the
  text, and the converted set is rendered.
\<close>

definition display_dbj :: "allocator \<Rightarrow> string \<Rightarrow> (exn + string) option" where
  "display_dbj al str =
     (case parse_text str of
        None \<Rightarrow> None
      | Some (Inl e) \<Rightarrow> Some (Inl e)
      | Some (Inr root) \<Rightarrow>
          (case convert_dbj al 0 root of
             Inl e \<Rightarrow> Some (Inl e)
           | Inr (s, k) \<Rightarrow> Some (Inr (to_string s))))"

definition display_slc :: "allocator \<Rightarrow> string \<Rightarrow> (exn + string) option" where
  "display_slc al str =
     (case parse_text str of
        None \<Rightarrow> None
      | Some (Inl e) \<Rightarrow> Some (Inl e)
      | Some (Inr root) \<Rightarrow>
          (case convert al 0 root of
             Inl e \<Rightarrow> Some (Inl e)
           | Inr (s, k) \<Rightarrow> Some (Inr (to_string s))))"

section \<open>Shapes: set terms without their addresses\<close>

text \<open>
  The shape of a set term forgets the addresses of the nested sets and the order of the
  elements: it is the term as a finite multiset of symbols, integers and shapes. Two set
  terms of the same shape differ by the addresses of their objects only.
\<close>

datatype shape = SymS string | NumS int | SetS "shape multiset"

fun shape_of :: "SLC_set \<Rightarrow> shape"
and shapes_of :: "SLC_element list \<Rightarrow> shape multiset"
and shape_of_element :: "SLC_element \<Rightarrow> shape" where
  "shape_of (SLC_set es) = SetS (shapes_of es)"
| "shapes_of [] = {#}"
| "shapes_of (e # es) = add_mset (shape_of_element e) (shapes_of es)"
| "shape_of_element (StringView s) = SymS s"
| "shape_of_element (IntVal i) = NumS i"
| "shape_of_element (SharedPtr a s) = shape_of s"

text \<open>Two elements are comparable when one is less than the other, that is, not equivalent.\<close>

definition comparable :: "SLC_element \<Rightarrow> SLC_element \<Rightarrow> bool" where
  "comparable e x = (variant_less e x \<or> variant_less x e)"


text \<open>All the elements are pointers to objects made before the \<open>k\<close>-th allocation.\<close>

definition ptrs_below :: "allocator \<Rightarrow> nat \<Rightarrow> SLC_element list \<Rightarrow> bool" where
  "ptrs_below al k es = (\<forall>x \<in> set es. \<exists>j<k. \<exists>s. x = SharedPtr (al j) s)"


text \<open>The shape of \<^verbatim>\<open>{{}, {}}\<close>, the base of a numeral.\<close>

definition numeral_base_shape :: shape where
  "numeral_base_shape = SetS {#SetS {#}, SetS {#}#}"

section \<open>Notions for the structural parser\<close>

text \<open>
  The braces of a text, the first of them, and whether a text read at nesting depth \<open>d\<close>
  closes a group that brings the depth back to zero before it ends and before a closing
  brace is met at depth zero. \<open>closes 0 s\<close> says that \<open>s\<close> holds a complete top-level
  group.
\<close>

definition is_brace :: "char \<Rightarrow> bool" where
  "is_brace ch = (ch = CHR ''{'' \<or> ch = CHR ''}'')"

definition first_brace :: "string \<Rightarrow> char option" where
  "first_brace s = find is_brace s"

fun closes :: "nat \<Rightarrow> string \<Rightarrow> bool" where
  "closes d [] = False"
| "closes d (ch # rest) =
     (if ch = CHR ''{'' then closes (Suc d) rest
      else if ch = CHR ''}'' then (d = 1 \<or> (1 < d \<and> closes (d - 1) rest))
      else closes d rest)"

text \<open>
  A nesting skeleton, the text of its braces, and its shape as a set term.
\<close>

datatype brace_tree = Group "brace_tree list"

fun braces :: "brace_tree \<Rightarrow> string" where
  "braces (Group ts) = ''{'' @ concat (map braces ts) @ ''}''"

fun tree_shape :: "brace_tree \<Rightarrow> shape" where
  "tree_shape (Group ts) = SetS (mset (map tree_shape ts))"

text \<open>
  The braces of the groups still open at some depth: for each, the groups that remain
  inside it, then its closing brace.
\<close>

fun closing :: "brace_tree list list \<Rightarrow> string" where
  "closing [] = []"
| "closing (f # fs) = concat (map braces f) @ ''}'' @ closing fs"

text \<open>One group, read with a non-empty stack, ends as a new element of the top of the stack.\<close>

definition reads_group :: "allocator \<Rightarrow> brace_tree \<Rightarrow> bool" where
  "reads_group al t = (\<forall>k top_set stk cs. ptrs_below al k (elements top_set) \<longrightarrow>
     (\<exists>k' c. k \<le> k' \<and> shape_of c = tree_shape t \<and>
        parse_toposet_loop al k (top_set # stk) (braces t @ cs) =
        parse_toposet_loop al (Suc k') (insert_element (SharedPtr (al k') c) top_set # stk) cs))"

section \<open>Notions for the converters\<close>

text \<open>A node wrapped in \<open>n\<close> pairs of parentheses.\<close>

fun grouped :: "nat \<Rightarrow> ULC_AST_node \<Rightarrow> ULC_AST_node" where
  "grouped 0 node = node"
| "grouped (Suc n) node = GROUP (Some (grouped n node))"

text \<open>
  \<open>all_bound captured node\<close>: every variable reference of the node is enclosed by a
  definition of its name, or its name is in \<open>captured\<close>. \<open>resolved_in_place node\<close>: no
  atomic node is the node itself or the child of a group, so that every variable
  reference is the child of a definition or of an application, where the converters
  resolve it.
\<close>

fun is_atomic :: "ULC_AST_node \<Rightarrow> bool" where
  "is_atomic (ATOMIC v) = True"
| "is_atomic node = False"

fun all_bound :: "string list \<Rightarrow> ULC_AST_node \<Rightarrow> bool" where
  "all_bound captured (ATOMIC v) = (v \<in> set captured)"
| "all_bound captured (DEFINITION v left) = all_bound (v # captured) left"
| "all_bound captured (APPLICATION left right) = (all_bound captured left \<and> all_bound captured right)"
| "all_bound captured (GROUP None) = True"
| "all_bound captured (GROUP (Some right)) = all_bound captured right"

fun resolved_in_place :: "ULC_AST_node \<Rightarrow> bool" where
  "resolved_in_place (ATOMIC v) = False"
| "resolved_in_place (DEFINITION v left) = (is_atomic left \<or> resolved_in_place left)"
| "resolved_in_place (APPLICATION left right) =
     ((is_atomic left \<or> resolved_in_place left) \<and> (is_atomic right \<or> resolved_in_place right))"
| "resolved_in_place (GROUP None) = True"
| "resolved_in_place (GROUP (Some right)) = resolved_in_place right"

text \<open>
  The three places of each converter that turn a child into an element do the same: a
  variable is looked up, anything else is converted and put in a new object. These are
  the two recurring fragments, used to state the lemmas.
\<close>

definition operand_dbj ::
  "allocator \<Rightarrow> nat \<Rightarrow> ULC_AST_node \<Rightarrow> int \<Rightarrow> string list \<Rightarrow> exn + SLC_element \<times> nat" where
  "operand_dbj al k node d captured =
     (case node of
        ATOMIC var_name \<Rightarrow>
          (case find_distance captured var_name of
             None \<Rightarrow> Inl UnknownVariableError
           | Some i \<Rightarrow> Inr (IntVal (int i + 1), k))
      | _ \<Rightarrow>
          (case convert_subset_dbj al k (Some node) d captured of
             Inl e \<Rightarrow> Inl e
           | Inr (sub_set, k1) \<Rightarrow> Inr (make_shared al k1 sub_set)))"

definition operand_slc ::
  "allocator \<Rightarrow> nat \<Rightarrow> ULC_AST_node \<Rightarrow> int \<Rightarrow> string list \<Rightarrow> exn + SLC_element \<times> nat" where
  "operand_slc al k node d captured =
     (case node of
        ATOMIC var_name \<Rightarrow>
          (case find_distance captured var_name of
             None \<Rightarrow> Inl UnknownVariableError
           | Some i \<Rightarrow> Inr (number_element al k (int i + 1)))
      | _ \<Rightarrow>
          (case convert_subset al k (Some node) d captured of
             Inl e \<Rightarrow> Inl e
           | Inr (sub_set, k1) \<Rightarrow> Inr (make_shared al k1 sub_set)))"

text \<open>
  What an operand is: an integer, or a pointer to an object made at or after the
  \<open>k\<close>-th allocation, the last one made.
\<close>

definition operand_form :: "allocator \<Rightarrow> nat \<Rightarrow> SLC_element \<Rightarrow> nat \<Rightarrow> bool" where
  "operand_form al k p k' =
     (k \<le> k' \<and> ((\<exists>i. p = IntVal i) \<or> (\<exists>j s. p = SharedPtr (al j) s \<and> k \<le> j \<and> k' = Suc j)))"

text \<open>
  The shape of \<^verbatim>\<open>make_number(n)\<close>, and the translation of the shape of a De Bruijn
  term: the lambda marker becomes \<^verbatim>\<open>{{}}\<close>, an integer \<open>n\<close> becomes the shape of
  \<^verbatim>\<open>make_number(n)\<close>, and a set is translated element by element.
\<close>

definition number_shape :: "int \<Rightarrow> shape" where
  "number_shape n = shape_of (fst (make_number id 0 n))"

primrec encode :: "shape \<Rightarrow> shape" where
  "encode (SymS s) = (if s = lambda_marker then SetS {#SetS {#}#} else SymS s)"
| "encode (NumS n) = number_shape n"
| "encode (SetS m) = SetS (image_mset encode m)"

section \<open>Notions for the set container\<close>

text \<open>
  The order of the variant as a key in a linear order: the index of the alternative,
  then the value.
\<close>

fun variant_key :: "SLC_element \<Rightarrow> nat \<times> string \<times> nat \<times> int" where
  "variant_key (StringView s) = (0, s, 0, 0)"
| "variant_key (SharedPtr a x) = (1, [], a, 0)"
| "variant_key (IntVal i) = (2, [], 0, i)"

text \<open>
  Two elements are equivalent for \<^verbatim>\<open>std::set\<close> when neither is less than the other;
  \<^verbatim>\<open>insert\<close> adds nothing when an equivalent element is present.
\<close>

definition equivalent :: "SLC_element \<Rightarrow> SLC_element \<Rightarrow> bool" where
  "equivalent e x = (\<not> variant_less e x \<and> \<not> variant_less x e)"

text \<open>
  In a collection of elements taken from one state of the heap, two pointers with the
  same address point to the same object.
\<close>

definition one_object_per_address :: "SLC_element set \<Rightarrow> bool" where
  "one_object_per_address E =
     (\<forall>a s t. SharedPtr a s \<in> E \<longrightarrow> SharedPtr a t \<in> E \<longrightarrow> s = t)"

text \<open>A set term built by inserting the elements of a list one after the other.\<close>

definition insert_all :: "SLC_element list \<Rightarrow> SLC_set \<Rightarrow> SLC_set" where
  "insert_all es s = fold insert_element es s"

section \<open>Notions for the parser\<close>

text \<open>
  What is left for the parser to read: the characters that the lexer has not read yet,
  and the tokens that are not the end-of-input token among those read from the lexer and
  not yet passed by the token cursor. Every token the parser consumes lowers this budget,
  which bounds the depth of the calls of the recursive descent.
\<close>

definition non_eof :: "ULC_token list \<Rightarrow> nat" where
  "non_eof ts = length (filter (\<lambda>t. tok_type t \<noteq> EOF_TOK) ts)"

definition unread :: "ULC_parser \<Rightarrow> nat" where
  "unread p = length (lexer_text (parser_lexer p)) - lexer_pos (parser_lexer p)"

definition lexed_total :: "ULC_parser \<Rightarrow> nat" where
  "lexed_total p = unread p + non_eof (parser_tokens p)"

definition consumed :: "ULC_parser \<Rightarrow> nat" where
  "consumed p = non_eof (take (parser_token_id p) (parser_tokens p))"

definition budget :: "ULC_parser \<Rightarrow> nat" where
  "budget p = lexed_total p - consumed p"

text \<open>
  The token cursor is inside the vector of tokens, and a closing parenthesis among the
  tokens comes from one in the text.
\<close>

definition well_formed :: "ULC_parser \<Rightarrow> bool" where
  "well_formed p =
     (parser_token_id p < length (parser_tokens p)
      \<and> (\<forall>t \<in> set (parser_tokens p).
            tok_type t = C_PAREN \<longrightarrow> CHR '')'' \<in> set (lexer_text (parser_lexer p))))"

text \<open>
  \<open>later p p'\<close>: \<open>p'\<close> is a state of the parser \<open>p\<close> after some more parsing: the same
  text, more tokens read, the cursor not before where it was.
\<close>

definition later :: "ULC_parser \<Rightarrow> ULC_parser \<Rightarrow> bool" where
  "later p p' =
     (lexer_text (parser_lexer p') = lexer_text (parser_lexer p)
      \<and> take (length (parser_tokens p)) (parser_tokens p') = parser_tokens p
      \<and> lexed_total p' \<le> lexed_total p
      \<and> parser_token_id p \<le> parser_token_id p'
      \<and> well_formed p')"

text \<open>
  The outcome of a parsing function called in state \<open>p\<close>: one of the two errors, or a
  later state, in which at least one token was consumed if a node is returned.
\<close>

definition parsed_ok :: "ULC_parser \<Rightarrow> exn + ULC_AST_node option \<times> ULC_parser \<Rightarrow> bool" where
  "parsed_ok p r =
     (case r of
        Inl e \<Rightarrow> e = UnbalancedParenError \<or> e = InvalidTokenError
      | Inr (node, p') \<Rightarrow> later p p' \<and> (node \<noteq> None \<longrightarrow> budget p' < budget p))"

definition applied_ok :: "ULC_parser \<Rightarrow> exn + ULC_AST_node option \<times> ULC_parser \<Rightarrow> bool" where
  "applied_ok p r =
     (case r of
        Inl e \<Rightarrow> e = UnbalancedParenError \<or> e = InvalidTokenError
      | Inr (node, p') \<Rightarrow> later p p' \<and> node \<noteq> None)"

text \<open>
  The tokens of a text: what the lexer returns when it is asked again and again, up to the
  end-of-input token or to the first invalid character. Each token that is not the
  end-of-input token takes a character at least, so that one call more than the length of
  the text reaches the end. \<open>begins_with str ts\<close>: the tokens of \<open>str\<close> start with \<open>ts\<close>.
\<close>

fun lex_all :: "nat \<Rightarrow> ULC_lexer \<Rightarrow> (exn + ULC_token) list" where
  "lex_all 0 lx = []"
| "lex_all (Suc n) lx =
     (case lexer_next_token lx of
        Inl e \<Rightarrow> [Inl e]
      | Inr (t, lx') \<Rightarrow> Inr t # (if tok_type t = EOF_TOK then [] else lex_all n lx'))"

definition token_stream :: "string \<Rightarrow> (exn + ULC_token) list" where
  "token_stream str = lex_all (Suc (length str)) \<lparr>lexer_text = str, lexer_pos = 0\<rparr>"










text \<open>
  A text for a list of tokens: the text of each token, followed by a space. A name is a
  non-empty alphanumeric string; a proper token is a variable with a name, or one of the
  four symbols with its text. \<open>names_ok\<close>: the variables of a node are names.
\<close>

definition spell :: "ULC_token list \<Rightarrow> string" where
  "spell ts = concat (map (\<lambda>t. tok_text t @ '' '') ts)"








text \<open>
  The outcome of a parsing function, whatever bound on the depth of the calls is enough
  for it.
\<close>

definition expression_gives :: "ULC_parser \<Rightarrow> exn + ULC_AST_node option \<times> ULC_parser \<Rightarrow> bool" where
  "expression_gives p r = (\<exists>n. parse_expression n p = Some r)"

definition abstraction_gives :: "ULC_parser \<Rightarrow> exn + ULC_AST_node option \<times> ULC_parser \<Rightarrow> bool" where
  "abstraction_gives p r = (\<exists>n. parse_abstraction n p = Some r)"

definition applications_gives ::
  "ULC_AST_node \<Rightarrow> ULC_parser \<Rightarrow> exn + ULC_AST_node option \<times> ULC_parser \<Rightarrow> bool" where
  "applications_gives head p r = (\<exists>n. parse_applications n head p = Some r)"

definition atomic_gives :: "ULC_parser \<Rightarrow> exn + ULC_AST_node option \<times> ULC_parser \<Rightarrow> bool" where
  "atomic_gives p r = (\<exists>n. parse_atomic n p = Some r)"

section \<open>Properties of set insertion\<close>

lemma shapes_of_set_insert:
  "\<forall>x \<in> set es. comparable e x \<Longrightarrow> shapes_of (set_insert e es) = add_mset (shape_of_element e) (shapes_of es)"
  by (induction es) (auto simp: comparable_def)

lemma length_set_insert:
  "\<forall>x \<in> set es. comparable e x \<Longrightarrow> length (set_insert e es) = Suc (length es)"
  by (induction es) (auto simp: comparable_def)

lemma set_set_insert:
  "\<forall>x \<in> set es. comparable e x \<Longrightarrow> set (set_insert e es) = insert e (set es)"
  by (induction es) (auto simp: comparable_def)

lemma variant_less_asym: "variant_less a b \<Longrightarrow> \<not> variant_less b a"
  by (cases a; cases b) auto

lemma set_insert_last:
  "\<forall>x \<in> set es. variant_less x e \<Longrightarrow> set_insert e es = es @ [e]"
  by (induction es) (auto dest: variant_less_asym)

lemma put_elements_append:
  "put_elements first (xs @ ys) = put_elements first xs @ put_elements (first \<and> xs = []) ys"
  by (induction xs arbitrary: first) auto

lemma ptrs_below_comparable:
  assumes "inj al" "ptrs_below al k es" "k \<le> j"
  shows "\<forall>x \<in> set es. comparable (SharedPtr (al j) s) x"
proof
  fix x assume "x \<in> set es"
  then obtain i t where i: "i < k" "x = SharedPtr (al i) t"
    using assms(2) unfolding ptrs_below_def by blast
  then have "i \<noteq> j" using assms(3) by simp
  then have "al i \<noteq> al j" using assms(1) by (simp add: inj_eq)
  then show "comparable (SharedPtr (al j) s) x"
    using i by (auto simp: comparable_def)
qed

lemma ptrs_below_insert:
  assumes "inj al" "ptrs_below al k es"
  shows "ptrs_below al (Suc k) (set_insert (SharedPtr (al k) s) es)"
proof -
  have "set (set_insert (SharedPtr (al k) s) es) = insert (SharedPtr (al k) s) (set es)"
    using set_set_insert[OF ptrs_below_comparable[OF assms, of k s]] by simp
  moreover have "\<exists>j<Suc k. \<exists>t. x = SharedPtr (al j) t" if "x \<in> set es" for x
    using assms(2) that unfolding ptrs_below_def by (meson less_SucI)
  ultimately show ?thesis
    unfolding ptrs_below_def by auto
qed

lemma ptrs_below_less:
  "strict_mono al \<Longrightarrow> ptrs_below al k es \<Longrightarrow> k \<le> j \<Longrightarrow> \<forall>x \<in> set es. variant_less x (SharedPtr (al j) s)"
  unfolding ptrs_below_def
  by (auto simp: strict_mono_def)


lemma make_number_loop_done:
  "\<not> i < n \<Longrightarrow> make_number_loop al k i n t = (t, k)"
  by (subst make_number_loop.simps) simp

lemma make_number_loop_step:
  "i < n \<Longrightarrow> make_number_loop al k i n t =
     make_number_loop al (Suc k) (i + 1) n (insert_element (SharedPtr (al k) empty_set) t)"
  by (subst make_number_loop.simps) (simp add: make_shared_def)

lemma make_number_loop_shape:
  assumes "inj al"
  shows "ptrs_below al k (elements t) \<Longrightarrow>
         shapes_of (elements (fst (make_number_loop al k i n t))) =
           shapes_of (elements t) + replicate_mset (nat (n - i)) (SetS {#})
         \<and> length (elements (fst (make_number_loop al k i n t))) = length (elements t) + nat (n - i)"
proof (induction "nat (n - i)" arbitrary: i k t)
  case 0
  then have "\<not> i < n" by simp
  with 0 show ?case by (simp add: make_number_loop_done)
next
  case (Suc m)
  let ?t = "insert_element (SharedPtr (al k) empty_set) t"
  have lt: "i < n" and m: "m = nat (n - (i + 1))" using Suc.hyps(2) by auto
  have pb: "ptrs_below al (Suc k) (elements ?t)"
    using ptrs_below_insert[OF assms Suc.prems] by (simp add: insert_element_def)
  have cmp: "\<forall>x \<in> set (elements t). comparable (SharedPtr (al k) empty_set) x"
    using ptrs_below_comparable[OF assms Suc.prems] by simp
  have el: "shapes_of (elements ?t) = add_mset (SetS {#}) (shapes_of (elements t))"
    "length (elements ?t) = Suc (length (elements t))"
    using shapes_of_set_insert[OF cmp] length_set_insert[OF cmp]
    by (simp_all add: insert_element_def empty_set_def)
  show ?case
    unfolding make_number_loop_step[OF lt] using Suc.hyps(1)[OF m pb] el Suc.hyps(2)[symmetric] m by simp
qed

lemma make_number_loop_mono:
  assumes "strict_mono al"
  shows "ptrs_below al k (elements t) \<Longrightarrow> elements t \<noteq> [] \<Longrightarrow>
         put_elements True (elements (fst (make_number_loop al k i n t))) =
           put_elements True (elements t) @ concat (replicate (nat (n - i)) '', {}'')"
proof (induction "nat (n - i)" arbitrary: i k t)
  case 0
  then have "\<not> i < n" by simp
  with 0 show ?case by (simp add: make_number_loop_done)
next
  case (Suc m)
  let ?t = "insert_element (SharedPtr (al k) empty_set) t"
  have lt: "i < n" and m: "m = nat (n - (i + 1))" using Suc.hyps(2) by auto
  have less: "\<forall>x \<in> set (elements t). variant_less x (SharedPtr (al k) empty_set)"
    using ptrs_below_less[OF assms Suc.prems(1)] by simp
  have el: "elements ?t = elements t @ [SharedPtr (al k) empty_set]"
    using set_insert_last[OF less] by (simp add: insert_element_def)
  have pb: "ptrs_below al (Suc k) (elements ?t)"
    using ptrs_below_insert[OF strict_mono_imp_inj_on[OF assms] Suc.prems(1)]
    by (simp add: insert_element_def)
  have ne: "elements ?t \<noteq> []" using el by simp
  have "put_elements True (elements ?t) = put_elements True (elements t) @ '', {}''"
    unfolding el using Suc.prems(2) by (simp add: put_elements_append empty_set_def)
  then show ?case
    unfolding make_number_loop_step[OF lt]
    using Suc.hyps(1)[OF m pb ne] Suc.hyps(2)[symmetric] m[symmetric]
    by (simp add: replicate_app_Cons_same)
qed

section \<open>Numerals\<close>

lemma make_number_facts:
  assumes "inj al" and "1 \<le> n"
  shows "shape_of (fst (make_number al k n)) =
           SetS (add_mset numeral_base_shape (replicate_mset (nat n - 1) (SetS {#})))
         \<and> length (elements (fst (make_number al k n))) = nat n
         \<and> to_string (fst (make_number al k 1)) = ''{{{}, {}}}''
         \<and> (strict_mono al \<longrightarrow>
              to_string (fst (make_number al k n)) =
                ''{{{}, {}}'' @ concat (replicate (nat n - 1) '', {}'') @ ''}'')"
proof -
  define base where "base = insert_element (SharedPtr (al (Suc k)) empty_set)
     (insert_element (SharedPtr (al k) empty_set) empty_set)"
  define top where "top = insert_element (SharedPtr (al (Suc (Suc k))) base) empty_set"
  have mk: "make_number al k m = make_number_loop al (Suc (Suc (Suc k))) 1 m top" for m
    by (simp add: make_number_def make_shared_def base_def top_def Let_def)
  have ne: "al k \<noteq> al (Suc k)" using assms(1) by (simp add: inj_eq)
  have base_cases: "elements base = [SharedPtr (al k) empty_set, SharedPtr (al (Suc k)) empty_set]
     \<or> elements base = [SharedPtr (al (Suc k)) empty_set, SharedPtr (al k) empty_set]"
    using ne by (auto simp: base_def insert_element_def empty_set_def)
  have base_shape: "shape_of base = numeral_base_shape"
    using base_cases by (cases base) (auto simp: numeral_base_shape_def empty_set_def)
  have base_string: "put_elements True (elements base) = ''{}, {}''"
    using base_cases by (auto simp: empty_set_def)
  have top_el: "elements top = [SharedPtr (al (Suc (Suc k))) base]"
    by (simp add: top_def insert_element_def empty_set_def)
  have pb: "ptrs_below al (Suc (Suc (Suc k))) (elements top)"
    unfolding top_el ptrs_below_def by auto
  have sh: "shape_of s = SetS (shapes_of (elements s))" for s by (cases s) simp
  have ts: "to_string s = ''{'' @ put_elements True (elements s) @ ''}''" for s by (cases s) simp
  have n1: "nat (n - 1) = nat n - 1" using assms(2) by simp
  have base_shape': "SetS (shapes_of (elements base)) = numeral_base_shape"
    using base_shape sh[of base] by simp
  have 1: "shape_of (fst (make_number al k n)) =
           SetS (add_mset numeral_base_shape (replicate_mset (nat n - 1) (SetS {#})))"
    using make_number_loop_shape[OF assms(1) pb, of 1 n]
    by (simp add: mk sh top_el base_shape' n1)
  have 2: "length (elements (fst (make_number al k n))) = nat n"
    using make_number_loop_shape[OF assms(1) pb, of 1 n] assms(2)
    by (simp add: mk top_el n1)
  have 3: "to_string (fst (make_number al k 1)) = ''{{{}, {}}}''"
    by (simp add: mk make_number_loop_done ts top_el base_string)
  have 4: "to_string (fst (make_number al k n)) =
                ''{{{}, {}}'' @ concat (replicate (nat n - 1) '', {}'') @ ''}''" if "strict_mono al"
    using make_number_loop_mono[OF that pb, of 1 n]
    by (simp add: mk ts top_el base_string n1)
  show ?thesis using 1 2 3 4 by blast
qed

text \<open>
  Claim C5, as the code has it. For \<open>n \<ge> 1\<close> and pairwise distinct addresses,
  \<open>make_number n\<close> holds \<open>n\<close> elements: the base \<^verbatim>\<open>{{}, {}}\<close> and \<open>n - 1\<close> empty sets,
  all kept apart because they are different objects. \<open>make_number 1\<close> renders
  \<^verbatim>\<open>{{{}, {}}}\<close>. The elements are rendered by ascending address: when every object is
  made at a higher address than the ones before it, the base comes first and
  \<open>make_number n\<close> renders \<^verbatim>\<open>{{{}, {}}\<close>, then \<open>n - 1\<close> times \<^verbatim>\<open>, {}\<close>, then \<^verbatim>\<open>}\<close>.
\<close>

theorem make_number_shape:
  assumes "inj al" and "1 \<le> n"
  shows "shape_of (fst (make_number al k n)) =
           SetS (add_mset numeral_base_shape (replicate_mset (nat n - 1) (SetS {#})))
         \<and> length (elements (fst (make_number al k n))) = nat n
         \<and> to_string (fst (make_number al k 1)) = ''{{{}, {}}}''
         \<and> (strict_mono al \<longrightarrow>
              to_string (fst (make_number al k n)) =
                ''{{{}, {}}'' @ concat (replicate (nat n - 1) '', {}'') @ ''}'')"
  using make_number_facts[OF assms] .

theorem make_number_shape_witness:
  "inj (id :: nat \<Rightarrow> nat) \<and> (1::int) \<le> 3
   \<and> shape_of (fst (make_number id 0 3)) = SetS {#numeral_base_shape, SetS {#}, SetS {#}#}
   \<and> length (elements (fst (make_number id 0 3))) = 3
   \<and> to_string (fst (make_number id 0 1)) = ''{{{}, {}}}''
   \<and> to_string (fst (make_number id 0 2)) = ''{{{}, {}}, {}}''
   \<and> to_string (fst (make_number id 0 3)) = ''{{{}, {}}, {}, {}}''"
proof -
  have m: "strict_mono (id :: nat \<Rightarrow> nat)" by (simp add: strict_mono_def)
  have r: "replicate_mset 2 (SetS {#}) = {#SetS {#}, SetS {#}#}"
    by (simp add: numeral_2_eq_2)
  show ?thesis
    using make_number_shape[of id 3 0] make_number_shape[of id 2 0] m
    by (simp add: numeral_2_eq_2 r)
qed

text \<open>
  When the third object, the base, is made at a higher address than the fourth, the empty
  set added for \<open>make_number 2\<close>, the empty set is rendered before the base: the
  rendering that claim C5 gives for \<open>make_number 2\<close> is not the only one. The
  allocator is the identity with the addresses 2 and 3 exchanged.
\<close>

theorem make_number_descending_addresses:
  "inj (id(2 := 3, 3 := 2 :: nat))
   \<and> to_string (fst (make_number (id(2 := 3, 3 := 2)) 0 2)) = ''{{}, {{}, {}}}''"
proof -
  have "inj (id(2 := 3, 3 := 2 :: nat))"
    by (auto simp: inj_on_def)
  moreover have "to_string (fst (make_number (id(2 := 3, 3 := 2)) 0 2)) = ''{{}, {{}, {}}}''"
    by code_simp
  ultimately show ?thesis by simp
qed

section \<open>The structural parser\<close>

lemma errors_distinct: "UnexpectedCloseBraceError \<noteq> IncompleteInputError"
  by (simp add: UnexpectedCloseBraceError_def IncompleteInputError_def)

lemma parse_toposet_loop_outcome:
  "(parse_toposet_loop al k stk s = Inl UnexpectedCloseBraceError
      \<longleftrightarrow> stk = [] \<and> first_brace s = Some (CHR ''}''))
   \<and> (parse_toposet_loop al k stk s = Inl IncompleteInputError
      \<longleftrightarrow> \<not> closes (length stk) s \<and> \<not> (stk = [] \<and> first_brace s = Some (CHR ''}'')))
   \<and> ((\<exists>r. parse_toposet_loop al k stk s = Inr r) \<longleftrightarrow> closes (length stk) s)"
proof (induction s arbitrary: k stk)
  case Nil
  show ?case using errors_distinct by (simp add: first_brace_def)
next
  case (Cons ch rest)
  consider (op) "ch = CHR ''{''" | (cl) "ch = CHR ''}''" | (other) "ch \<noteq> CHR ''{''" "ch \<noteq> CHR ''}''"
    by blast
  then show ?case
  proof cases
    case op
    show ?thesis using Cons.IH[of k "empty_set # stk"] op
      by (simp add: first_brace_def is_brace_def)
  next
    case cl
    show ?thesis
    proof (cases stk)
      case Nil
      then show ?thesis using cl errors_distinct by (simp add: first_brace_def is_brace_def)
    next
      case (Cons c stk')
      note c = this
      show ?thesis
      proof (cases stk')
        case Nil
        then show ?thesis using cl c by simp
      next
        case (Cons t stk'')
        then show ?thesis
          using cl c Cons.IH[of "Suc k" "insert_element (SharedPtr (al k) c) t # stk''"]
          by (simp add: make_shared_def)
      qed
    qed
  next
    case other
    then show ?thesis using Cons.IH[of k stk]
      by (simp add: first_brace_def is_brace_def)
  qed
qed

lemma parse_toposet_loop_filter:
  "parse_toposet_loop al k stk (filter is_brace s) = parse_toposet_loop al k stk s"
proof (induction s arbitrary: k stk)
  case Nil
  show ?case by simp
next
  case (Cons ch rest)
  show ?case
  proof (cases "is_brace ch")
    case True
    then show ?thesis using Cons.IH
      by (auto simp: is_brace_def make_shared_def split: list.splits)
  next
    case False
    then show ?thesis using Cons.IH by (simp add: is_brace_def)
  qed
qed

lemma ptrs_below_mono: "ptrs_below al k es \<Longrightarrow> k \<le> k' \<Longrightarrow> ptrs_below al k' es"
  unfolding ptrs_below_def by (meson less_le_trans)

lemma shape_of_elements: "shape_of s = SetS (shapes_of (elements s))"
  by (cases s) simp

lemma elements_insert_element [simp]: "elements (insert_element e s) = set_insert e (elements s)"
  by (simp add: insert_element_def)

lemma reads_groups:
  assumes "inj al" "\<forall>t \<in> set ts. reads_group al t" "ptrs_below al k (elements cur)"
  shows "\<exists>k' cur'. k \<le> k' \<and> ptrs_below al k' (elements cur') \<and>
     shapes_of (elements cur') = shapes_of (elements cur) + mset (map tree_shape ts) \<and>
     parse_toposet_loop al k (cur # stk) (concat (map braces ts) @ cs) =
     parse_toposet_loop al k' (cur' # stk) cs"
  using assms(2,3)
proof (induction ts arbitrary: k cur)
  case Nil
  show ?case using Nil.prems(2) by (intro exI[of _ k] exI[of _ cur]) simp
next
  case (Cons t ts)
  have "reads_group al t" using Cons.prems(1) by simp
  then obtain k1 c where 1: "k \<le> k1" "shape_of c = tree_shape t"
    "parse_toposet_loop al k (cur # stk) (braces t @ concat (map braces ts) @ cs) =
     parse_toposet_loop al (Suc k1) (insert_element (SharedPtr (al k1) c) cur # stk) (concat (map braces ts) @ cs)"
    using Cons.prems(2) unfolding reads_group_def by blast
  let ?cur = "insert_element (SharedPtr (al k1) c) cur"
  have pb1: "ptrs_below al k1 (elements cur)" using Cons.prems(2) 1(1) by (rule ptrs_below_mono)
  have cmp: "\<forall>x \<in> set (elements cur). comparable (SharedPtr (al k1) c) x"
    using ptrs_below_comparable[OF assms(1) pb1] by simp
  have pb: "ptrs_below al (Suc k1) (elements ?cur)"
    using ptrs_below_insert[OF assms(1) pb1] by simp
  have sh: "shapes_of (elements ?cur) = add_mset (tree_shape t) (shapes_of (elements cur))"
    using shapes_of_set_insert[OF cmp] 1(2) by simp
  obtain k' cur' where 2: "Suc k1 \<le> k'" "ptrs_below al k' (elements cur')"
     "shapes_of (elements cur') = shapes_of (elements ?cur) + mset (map tree_shape ts)"
     "parse_toposet_loop al (Suc k1) (?cur # stk) (concat (map braces ts) @ cs) =
      parse_toposet_loop al k' (cur' # stk) cs"
    using Cons.IH[OF _ pb] Cons.prems(1) by auto
  show ?case
    using 1 2 sh by (intro exI[of _ k'] exI[of _ cur']) simp
qed

lemma reads_group_all:
  assumes "inj al"
  shows "reads_group al t"
proof (induction t)
  case (Group ts)
  show ?case unfolding reads_group_def
  proof (intro allI impI)
    fix k top_set stk cs
    assume "ptrs_below al k (elements top_set)"
    have e: "ptrs_below al k (elements empty_set)" by (simp add: ptrs_below_def empty_set_def)
    obtain k' cur' where 2: "k \<le> k'" 
     "shapes_of (elements cur') = shapes_of (elements empty_set) + mset (map tree_shape ts)"
     "parse_toposet_loop al k (empty_set # top_set # stk) (concat (map braces ts) @ CHR ''}'' # cs) =
      parse_toposet_loop al k' (cur' # top_set # stk) (CHR ''}'' # cs)"
      using reads_groups[OF assms _ e, of ts "top_set # stk" "CHR ''}'' # cs"] Group.IH by auto
    show "\<exists>k' c. k \<le> k' \<and> shape_of c = tree_shape (Group ts) \<and>
        parse_toposet_loop al k (top_set # stk) (braces (Group ts) @ cs) =
        parse_toposet_loop al (Suc k') (insert_element (SharedPtr (al k') c) top_set # stk) cs"
      using 2 by (intro exI[of _ k'] exI[of _ cur']) (simp add: shape_of_elements empty_set_def make_shared_def)
  qed
qed

lemma parse_toposet_reads_skeleton:
  assumes "inj al" and "filter is_brace str = braces t @ rest"
  shows "\<exists>r. parse_toposet al k str = Inr r \<and> shape_of r = tree_shape t"
proof -
  obtain ts where t: "t = Group ts" by (cases t)
  have e: "ptrs_below al k (elements empty_set)" by (simp add: ptrs_below_def empty_set_def)
  obtain k' cur' where 2: 
     "shapes_of (elements cur') = shapes_of (elements empty_set) + mset (map tree_shape ts)"
     "parse_toposet_loop al k [empty_set] (concat (map braces ts) @ CHR ''}'' # rest) =
      parse_toposet_loop al k' [cur'] (CHR ''}'' # rest)"
    using reads_groups[OF assms(1) _ e, of ts "[]" "CHR ''}'' # rest"] reads_group_all[OF assms(1)] by auto
  have "parse_toposet al k str = parse_toposet_loop al k [] (braces t @ rest)"
    using parse_toposet_loop_filter[of al k "[]" str] assms(2) by (simp add: parse_toposet_def)
  also have "\<dots> = Inr cur'" using 2(2) by (simp add: t)
  finally show ?thesis using 2(1) by (simp add: t shape_of_elements empty_set_def)
qed

lemma closes_skeleton:
  "closes d s \<Longrightarrow>
     (d = 0 \<longrightarrow> (\<exists>t rest. filter is_brace s = braces t @ rest))
     \<and> (0 < d \<longrightarrow> (\<exists>fs rest. length fs = d \<and> filter is_brace s = closing fs @ rest))"
proof (induction s arbitrary: d)
  case Nil
  then show ?case by simp
next
  case (Cons ch cs)
  consider (op) "ch = CHR ''{''" | (cl) "ch = CHR ''}''" | (other) "ch \<noteq> CHR ''{''" "ch \<noteq> CHR ''}''"
    by blast
  then show ?case
  proof cases
    case op
    then have "closes (Suc d) cs" using Cons.prems by simp
    then obtain fs rest where fs: "length fs = Suc d" "filter is_brace cs = closing fs @ rest"
      using Cons.IH[of "Suc d"] by auto
    then obtain f fs' where f: "fs = f # fs'" by (cases fs) auto
    have s: "filter is_brace (ch # cs) = braces (Group f) @ closing fs' @ rest"
      using op fs(2) f by (simp add: is_brace_def)
    show ?thesis
    proof (cases d)
      case 0
      then have "fs' = []" using fs(1) f by simp
      then have "filter is_brace (ch # cs) = braces (Group f) @ rest" using s by simp
      then have "\<exists>t rest. filter is_brace (ch # cs) = braces t @ rest" by blast
      then show ?thesis using 0 by simp
    next
      case (Suc d')
      then obtain g gs where g: "fs' = g # gs" using fs(1) f by (cases fs') auto
      have "filter is_brace (ch # cs) = closing ((Group f # g) # gs) @ rest"
        using s g by simp
      moreover have "length ((Group f # g) # gs) = d" using fs(1) f g by simp
      ultimately have "\<exists>fs rest. length fs = d \<and> filter is_brace (ch # cs) = closing fs @ rest"
        by blast
      then show ?thesis using Suc by simp
    qed
  next
    case cl
    then have d: "d = 1 \<or> (1 < d \<and> closes (d - 1) cs)" using Cons.prems by simp
    show ?thesis
    proof (cases "d = 1")
      case True
      have "filter is_brace (ch # cs) = closing [[]] @ filter is_brace cs"
        using cl by (simp add: is_brace_def)
      moreover have "length [[] :: brace_tree list] = d" using True by simp
      ultimately have "\<exists>fs rest. length fs = d \<and> filter is_brace (ch # cs) = closing fs @ rest"
        by blast
      then show ?thesis using True by simp
    next
      case False
      then have 1: "1 < d" "closes (d - 1) cs" using d by auto
      then obtain fs rest where fs: "length fs = d - 1" "filter is_brace cs = closing fs @ rest"
        using Cons.IH[of "d - 1"] by auto
      have "filter is_brace (ch # cs) = closing ([] # fs) @ rest"
        using cl fs(2) by (simp add: is_brace_def)
      moreover have "length ([] # fs) = d" using fs(1) 1(1) by simp
      ultimately have "\<exists>fs rest. length fs = d \<and> filter is_brace (ch # cs) = closing fs @ rest"
        by blast
      then show ?thesis using 1(1) by simp
    qed
  next
    case other
    then have "closes d cs" using Cons.prems by simp
    then show ?thesis using Cons.IH[of d] other by (simp add: is_brace_def)
  qed
qed

lemma closes_iff_skeleton:
  "closes 0 s \<longleftrightarrow> (\<exists>t rest. filter is_brace s = braces t @ rest)"
proof
  assume "closes 0 s"
  then show "\<exists>t rest. filter is_brace s = braces t @ rest"
    using closes_skeleton[of 0 s] by simp
next
  assume "\<exists>t rest. filter is_brace s = braces t @ rest"
  then obtain t rest where "filter is_brace s = braces t @ rest" by blast
  then have "\<exists>r. parse_toposet id 0 s = Inr r"
    using parse_toposet_reads_skeleton[of id s t rest 0] by auto
  then show "closes 0 s"
    using parse_toposet_loop_outcome[of id 0 "[]" s] by (simp add: parse_toposet_def)
qed

text \<open>
  Claim C7. The structural parser throws \<^verbatim>\<open>Unexpected '}'\<close> exactly when the first
  brace of the text is a closing one, which is the only way to meet a closing brace with
  an empty stack. It returns a term exactly when the text holds a complete top-level
  group, that is, when its braces start with those of a nesting skeleton. It throws
  \<^verbatim>\<open>Could not parse!\<close> in the remaining case, when the first brace is not a closing one
  and no top-level group is completed. The text \<^verbatim>\<open>{\<close> and the empty text are
  incomplete, the text \<^verbatim>\<open>}\<close> has an unexpected closing brace.
\<close>

theorem parse_toposet_errors:
  "(parse_toposet al k s = Inl UnexpectedCloseBraceError \<longleftrightarrow> first_brace s = Some (CHR ''}''))
   \<and> (parse_toposet al k s = Inl IncompleteInputError
        \<longleftrightarrow> first_brace s \<noteq> Some (CHR ''}'')
            \<and> \<not> (\<exists>t rest. filter is_brace s = braces t @ rest))
   \<and> ((\<exists>r. parse_toposet al k s = Inr r) \<longleftrightarrow> (\<exists>t rest. filter is_brace s = braces t @ rest))
   \<and> parse_toposet al k ''{'' = Inl IncompleteInputError
   \<and> parse_toposet al k [] = Inl IncompleteInputError
   \<and> parse_toposet al k ''}'' = Inl UnexpectedCloseBraceError"
proof -
  have "(parse_toposet al k s = Inl UnexpectedCloseBraceError \<longleftrightarrow> first_brace s = Some (CHR ''}''))
   \<and> (parse_toposet al k s = Inl IncompleteInputError
        \<longleftrightarrow> first_brace s \<noteq> Some (CHR ''}'') \<and> \<not> closes 0 s)
   \<and> ((\<exists>r. parse_toposet al k s = Inr r) \<longleftrightarrow> closes 0 s)"
    using parse_toposet_loop_outcome[of al k "[]" s]
    by (auto simp: parse_toposet_def)
  moreover have "parse_toposet al k ''{'' = Inl IncompleteInputError
   \<and> parse_toposet al k [] = Inl IncompleteInputError
   \<and> parse_toposet al k ''}'' = Inl UnexpectedCloseBraceError"
    by (simp add: parse_toposet_def)
  ultimately show ?thesis unfolding closes_iff_skeleton by blast
qed

text \<open>
  Claim C8. When the braces of the text are those of a nesting skeleton \<open>t\<close> followed
  by anything, the parser returns a term whose shape is that of \<open>t\<close>: every group is a
  nested set of the term of its enclosing group, the characters that are not braces do
  not matter, and what follows the first complete top-level group is never read. The
  addresses of the objects are pairwise distinct.
\<close>

theorem parse_toposet_skeleton:
  assumes "inj al" and "filter is_brace str = braces t @ rest"
  shows "\<exists>r. parse_toposet al k str = Inr r \<and> shape_of r = tree_shape t"
  using parse_toposet_reads_skeleton[OF assms] .

theorem parse_toposet_skeleton_witness:
  "inj (id :: nat \<Rightarrow> nat)
   \<and> filter is_brace ''{{}, {{}}} x } {'' = braces (Group [Group [], Group [Group []]]) @ ''}{''
   \<and> (\<exists>r. parse_toposet id 0 ''{{}, {{}}} x } {'' = Inr r
          \<and> shape_of r = SetS {#SetS {#}, SetS {#SetS {#}#}#})"
  using parse_toposet_skeleton[of id "''{{}, {{}}} x } {''" "Group [Group [], Group [Group []]]" "''}{''" 0]
  by (simp add: is_brace_def)

section \<open>The converters\<close>

lemma find_distance_None: "find_distance captured v = None \<longleftrightarrow> v \<notin> set captured"
  by (induction captured) (auto split: option.splits)

lemma errors_distinct2: "HuhError \<noteq> UnknownVariableError"
  by (simp add: HuhError_def UnknownVariableError_def)

lemma convert_subset_dbj_DEFINITION:
  "convert_subset_dbj al k (Some (DEFINITION v left)) d captured =
     (case operand_dbj al k left (d + 1) (v # captured) of
        Inl e \<Rightarrow> Inl e
      | Inr (p, k') \<Rightarrow>
          Inr (insert_element p (insert_element (StringView lambda_marker) empty_set), k'))"
  by (cases left)
     (auto simp: operand_dbj_def Let_def make_shared_def split: option.splits sum.splits)

lemma convert_subset_dbj_APPLICATION:
  "convert_subset_dbj al k (Some (APPLICATION left right)) d captured =
     (case operand_dbj al k left d captured of
        Inl e \<Rightarrow> Inl e
      | Inr (p, k3) \<Rightarrow>
          (case operand_dbj al (Suc k3) right d captured of
             Inl e \<Rightarrow> Inl e
           | Inr (q, k6) \<Rightarrow>
               Inr (insert_element q
                      (insert_element (SharedPtr (al k3) (insert_element p empty_set)) empty_set),
                    k6)))"
  by (cases left; cases right)
     (auto simp: operand_dbj_def Let_def make_shared_def split: option.splits sum.splits)

lemma convert_subset_DEFINITION:
  "convert_subset al k (Some (DEFINITION v left)) d captured =
     (case operand_slc al (Suc (Suc k)) left (d + 1) (v # captured) of
        Inl e \<Rightarrow> Inl e
      | Inr (p, k') \<Rightarrow>
          Inr (insert_element p
                 (insert_element
                    (SharedPtr (al (Suc k)) (insert_element (SharedPtr (al k) empty_set) empty_set))
                    empty_set),
               k'))"
  by (cases left)
     (auto simp: operand_slc_def Let_def make_shared_def split: option.splits sum.splits prod.splits)

lemma convert_subset_APPLICATION:
  "convert_subset al k (Some (APPLICATION left right)) d captured =
     (case operand_slc al k left d captured of
        Inl e \<Rightarrow> Inl e
      | Inr (p, k3) \<Rightarrow>
          (case operand_slc al (Suc k3) right d captured of
             Inl e \<Rightarrow> Inl e
           | Inr (q, k6) \<Rightarrow>
               Inr (insert_element q
                      (insert_element (SharedPtr (al k3) (insert_element p empty_set)) empty_set),
                    k6)))"
  by (cases left; cases right)
     (auto simp: operand_slc_def Let_def make_shared_def split: option.splits sum.splits prod.splits)

lemmas [simp del] = convert_subset_dbj.simps(2,3) convert_subset.simps(2,3)

lemma operand_dbj_ok:
  assumes "all_bound captured n"
    and "\<And>k d. \<exists>r. convert_subset_dbj al k (Some n) d captured = Inr r"
  shows "\<exists>p k'. operand_dbj al k n d captured = Inr (p, k')"
proof (cases n)
  case (ATOMIC v)
  then show ?thesis using assms(1)
    by (auto simp: operand_dbj_def find_distance_None split: option.splits)
next
  case (APPLICATION l r)
  then show ?thesis using assms(2)[of k d]
    by (auto simp: operand_dbj_def make_shared_def)
next
  case (DEFINITION v b)
  then show ?thesis using assms(2)[of k d]
    by (auto simp: operand_dbj_def make_shared_def)
next
  case (GROUP g)
  then show ?thesis using assms(2)[of k d]
    by (auto simp: operand_dbj_def make_shared_def)
qed

lemma convert_subset_dbj_ok:
  "all_bound captured node \<Longrightarrow> \<exists>r. convert_subset_dbj al k (Some node) d captured = Inr r"
proof (induction node arbitrary: k d captured)
  case (APPLICATION l r)
  have bl: "all_bound captured l" and br: "all_bound captured r" using APPLICATION.prems by auto
  obtain p k3 where P: "operand_dbj al k l d captured = Inr (p, k3)"
    using operand_dbj_ok[OF bl APPLICATION.IH(1)[OF bl]] by blast
  obtain q k6 where Q: "operand_dbj al (Suc k3) r d captured = Inr (q, k6)"
    using operand_dbj_ok[OF br APPLICATION.IH(2)[OF br]] by blast
  show ?case by (simp add: convert_subset_dbj_APPLICATION P Q)
next
  case (DEFINITION v b)
  have bb: "all_bound (v # captured) b" using DEFINITION.prems by simp
  obtain p k3 where P: "operand_dbj al k b (d + 1) (v # captured) = Inr (p, k3)"
    using operand_dbj_ok[OF bb DEFINITION.IH[OF bb]] by blast
  show ?case by (simp add: convert_subset_dbj_DEFINITION P)
next
  case (ATOMIC v)
  show ?case by simp
next
  case (GROUP g)
  show ?case
  proof (cases g)
    case None
    then show ?thesis by simp
  next
    case (Some n)
    then show ?thesis using GROUP.IH[of n] GROUP.prems by simp
  qed
qed

lemma operand_dbj_unbound:
  assumes "is_atomic n \<or> resolved_in_place n" "\<not> all_bound captured n"
    and "\<And>k d. resolved_in_place n \<Longrightarrow> convert_subset_dbj al k (Some n) d captured = Inl UnknownVariableError"
  shows "operand_dbj al k n d captured = Inl UnknownVariableError"
proof (cases n)
  case (ATOMIC v)
  then show ?thesis using assms(2)
    by (auto simp: operand_dbj_def find_distance_None split: option.splits)
next
  case (APPLICATION l r)
  then show ?thesis using assms(1) assms(3)[of k d]
    by (auto simp: operand_dbj_def)
next
  case (DEFINITION v b)
  then show ?thesis using assms(1) assms(3)[of k d]
    by (auto simp: operand_dbj_def)
next
  case (GROUP g)
  then show ?thesis using assms(1) assms(3)[of k d]
    by (auto simp: operand_dbj_def)
qed

lemma convert_subset_dbj_unbound:
  "resolved_in_place node \<Longrightarrow> \<not> all_bound captured node \<Longrightarrow>
   convert_subset_dbj al k (Some node) d captured = Inl UnknownVariableError"
proof (induction node arbitrary: k d captured)
  case (APPLICATION l r)
  have rl: "is_atomic l \<or> resolved_in_place l" and rr: "is_atomic r \<or> resolved_in_place r"
    using APPLICATION.prems(1) by auto
  show ?case
  proof (cases "all_bound captured l")
    case False
    have "operand_dbj al k l d captured = Inl UnknownVariableError"
      using operand_dbj_unbound[OF rl False] APPLICATION.IH(1)[OF _ False] by blast
    then show ?thesis by (simp add: convert_subset_dbj_APPLICATION)
  next
    case True
    then have nr: "\<not> all_bound captured r" using APPLICATION.prems(2) by simp
    obtain p k3 where P: "operand_dbj al k l d captured = Inr (p, k3)"
      using operand_dbj_ok[OF True convert_subset_dbj_ok[OF True]] by blast
    have "operand_dbj al (Suc k3) r d captured = Inl UnknownVariableError"
      using operand_dbj_unbound[OF rr nr] APPLICATION.IH(2)[OF _ nr] by blast
    then show ?thesis by (simp add: convert_subset_dbj_APPLICATION P)
  qed
next
  case (DEFINITION v b)
  have rb: "is_atomic b \<or> resolved_in_place b" using DEFINITION.prems(1) by auto
  have nb: "\<not> all_bound (v # captured) b" using DEFINITION.prems(2) by simp
  have "operand_dbj al k b (d + 1) (v # captured) = Inl UnknownVariableError"
    using operand_dbj_unbound[OF rb nb] DEFINITION.IH[OF _ nb] by blast
  then show ?case by (simp add: convert_subset_dbj_DEFINITION)
next
  case (ATOMIC v)
  then show ?case by simp
next
  case (GROUP g)
  show ?case
  proof (cases g)
    case None
    then show ?thesis using GROUP.prems by simp
  next
    case (Some n)
    then show ?thesis using GROUP.IH[of n] GROUP.prems by simp
  qed
qed

lemma operand_slc_bound:
  assumes "all_bound captured n"
    and "\<And>k d. (\<exists>r. convert_subset al k (Some n) d captured = Inr r)
            \<or> convert_subset al k (Some n) d captured = Inl HuhError"
  shows "(\<exists>r. operand_slc al k n d captured = Inr r) \<or> operand_slc al k n d captured = Inl HuhError"
proof (cases n)
  case (ATOMIC v)
  then show ?thesis using assms(1)
    by (auto simp: operand_slc_def find_distance_None split: option.splits)
next
  case (APPLICATION l r)
  then show ?thesis using assms(2)[of k d]
    by (auto simp: operand_slc_def make_shared_def)
next
  case (DEFINITION v b)
  then show ?thesis using assms(2)[of k d]
    by (auto simp: operand_slc_def make_shared_def)
next
  case (GROUP g)
  then show ?thesis using assms(2)[of k d]
    by (auto simp: operand_slc_def make_shared_def)
qed

lemma convert_subset_bound:
  "all_bound captured node \<Longrightarrow>
   (\<exists>r. convert_subset al k (Some node) d captured = Inr r)
   \<or> convert_subset al k (Some node) d captured = Inl HuhError"
proof (induction node arbitrary: k d captured)
  case (APPLICATION l r)
  have bl: "all_bound captured l" and br: "all_bound captured r" using APPLICATION.prems by auto
  consider (err) "operand_slc al k l d captured = Inl HuhError"
    | (ok) p k3 where "operand_slc al k l d captured = Inr (p, k3)"
    using operand_slc_bound[OF bl APPLICATION.IH(1)[OF bl], of k d] by fastforce
  then show ?case
  proof cases
    case err
    then show ?thesis by (simp add: convert_subset_APPLICATION)
  next
    case ok
    consider (err2) "operand_slc al (Suc k3) r d captured = Inl HuhError"
      | (ok2) q k6 where "operand_slc al (Suc k3) r d captured = Inr (q, k6)"
      using operand_slc_bound[OF br APPLICATION.IH(2)[OF br], of "Suc k3" d] by fastforce
    then show ?thesis
      by cases (simp_all add: convert_subset_APPLICATION ok)
  qed
next
  case (DEFINITION v b)
  have bb: "all_bound (v # captured) b" using DEFINITION.prems by simp
  consider (err) "operand_slc al (Suc (Suc k)) b (d + 1) (v # captured) = Inl HuhError"
    | (ok) p k3 where "operand_slc al (Suc (Suc k)) b (d + 1) (v # captured) = Inr (p, k3)"
    using operand_slc_bound[OF bb DEFINITION.IH[OF bb], of "Suc (Suc k)" "d + 1"] by fastforce
  then show ?case
    by cases (simp_all add: convert_subset_DEFINITION)
next
  case (ATOMIC v)
  show ?case by simp
next
  case (GROUP g)
  show ?case
  proof (cases g)
    case None
    then show ?thesis by simp
  next
    case (Some n)
    then show ?thesis using GROUP.IH[of n] GROUP.prems by simp
  qed
qed

lemma operand_slc_resolved:
  assumes "is_atomic n \<or> resolved_in_place n" "all_bound captured n"
    and "\<And>k d. resolved_in_place n \<Longrightarrow> \<exists>r. convert_subset al k (Some n) d captured = Inr r"
  shows "\<exists>p k'. operand_slc al k n d captured = Inr (p, k')"
proof (cases n)
  case (ATOMIC v)
  then show ?thesis using assms(2)
    by (cases "number_element al k (int (the (find_distance captured v)) + 1)")
       (auto simp: operand_slc_def find_distance_None split: option.splits)
next
  case (APPLICATION l r)
  then show ?thesis using assms(1) assms(3)[of k d]
    by (auto simp: operand_slc_def make_shared_def)
next
  case (DEFINITION v b)
  then show ?thesis using assms(1) assms(3)[of k d]
    by (auto simp: operand_slc_def make_shared_def)
next
  case (GROUP g)
  then show ?thesis using assms(1) assms(3)[of k d]
    by (auto simp: operand_slc_def make_shared_def)
qed

lemma convert_subset_ok:
  "resolved_in_place node \<Longrightarrow> all_bound captured node \<Longrightarrow>
   \<exists>r. convert_subset al k (Some node) d captured = Inr r"
proof (induction node arbitrary: k d captured)
  case (APPLICATION l r)
  have rl: "is_atomic l \<or> resolved_in_place l" and rr: "is_atomic r \<or> resolved_in_place r"
    using APPLICATION.prems(1) by auto
  have bl: "all_bound captured l" and br: "all_bound captured r" using APPLICATION.prems(2) by auto
  obtain p k3 where P: "operand_slc al k l d captured = Inr (p, k3)"
    using operand_slc_resolved[OF rl bl] APPLICATION.IH(1)[OF _ bl] by blast
  obtain q k6 where Q: "operand_slc al (Suc k3) r d captured = Inr (q, k6)"
    using operand_slc_resolved[OF rr br] APPLICATION.IH(2)[OF _ br] by blast
  show ?case by (simp add: convert_subset_APPLICATION P Q)
next
  case (DEFINITION v b)
  have rb: "is_atomic b \<or> resolved_in_place b" using DEFINITION.prems(1) by auto
  have bb: "all_bound (v # captured) b" using DEFINITION.prems(2) by simp
  obtain p k3 where P: "operand_slc al (Suc (Suc k)) b (d + 1) (v # captured) = Inr (p, k3)"
    using operand_slc_resolved[OF rb bb] DEFINITION.IH[OF _ bb] by blast
  show ?case by (simp add: convert_subset_DEFINITION P)
next
  case (ATOMIC v)
  then show ?case by simp
next
  case (GROUP g)
  show ?case
  proof (cases g)
    case None
    then show ?thesis by simp
  next
    case (Some n)
    then show ?thesis using GROUP.IH[of n] GROUP.prems by simp
  qed
qed

lemma operand_slc_unbound:
  assumes "is_atomic n \<or> resolved_in_place n" "\<not> all_bound captured n"
    and "\<And>k d. resolved_in_place n \<Longrightarrow> convert_subset al k (Some n) d captured = Inl UnknownVariableError"
  shows "operand_slc al k n d captured = Inl UnknownVariableError"
proof (cases n)
  case (ATOMIC v)
  then show ?thesis using assms(2)
    by (auto simp: operand_slc_def find_distance_None split: option.splits)
next
  case (APPLICATION l r)
  then show ?thesis using assms(1) assms(3)[of k d]
    by (auto simp: operand_slc_def)
next
  case (DEFINITION v b)
  then show ?thesis using assms(1) assms(3)[of k d]
    by (auto simp: operand_slc_def)
next
  case (GROUP g)
  then show ?thesis using assms(1) assms(3)[of k d]
    by (auto simp: operand_slc_def)
qed

lemma convert_subset_unbound:
  "resolved_in_place node \<Longrightarrow> \<not> all_bound captured node \<Longrightarrow>
   convert_subset al k (Some node) d captured = Inl UnknownVariableError"
proof (induction node arbitrary: k d captured)
  case (APPLICATION l r)
  have rl: "is_atomic l \<or> resolved_in_place l" and rr: "is_atomic r \<or> resolved_in_place r"
    using APPLICATION.prems(1) by auto
  show ?case
  proof (cases "all_bound captured l")
    case False
    have "operand_slc al k l d captured = Inl UnknownVariableError"
      using operand_slc_unbound[OF rl False] APPLICATION.IH(1)[OF _ False] by blast
    then show ?thesis by (simp add: convert_subset_APPLICATION)
  next
    case True
    then have nr: "\<not> all_bound captured r" using APPLICATION.prems(2) by simp
    obtain p k3 where P: "operand_slc al k l d captured = Inr (p, k3)"
      using operand_slc_resolved[OF rl True] convert_subset_ok[OF _ True] by blast
    have "operand_slc al (Suc k3) r d captured = Inl UnknownVariableError"
      using operand_slc_unbound[OF rr nr] APPLICATION.IH(2)[OF _ nr] by blast
    then show ?thesis by (simp add: convert_subset_APPLICATION P)
  qed
next
  case (DEFINITION v b)
  have rb: "is_atomic b \<or> resolved_in_place b" using DEFINITION.prems(1) by auto
  have nb: "\<not> all_bound (v # captured) b" using DEFINITION.prems(2) by simp
  have "operand_slc al (Suc (Suc k)) b (d + 1) (v # captured) = Inl UnknownVariableError"
    using operand_slc_unbound[OF rb nb] DEFINITION.IH[OF _ nb] by blast
  then show ?case by (simp add: convert_subset_DEFINITION)
next
  case (ATOMIC v)
  then show ?case by simp
next
  case (GROUP g)
  show ?case
  proof (cases g)
    case None
    then show ?thesis using GROUP.prems by simp
  next
    case (Some n)
    then show ?thesis using GROUP.IH[of n] GROUP.prems by simp
  qed
qed

text \<open>
  Binder resolution where the converters resolve variables. When every variable
  reference of an AST is enclosed by a definition of its name, the De Bruijn conversion
  returns a term and the name-preserving conversion does not throw \<^verbatim>\<open>Unknown variable\<close>.
  When moreover no atomic node is the root or the child of a group, the name-preserving
  conversion returns a term too; and for such an AST with a variable reference that no
  definition of its name encloses, both conversions throw \<^verbatim>\<open>Unknown variable\<close>.
\<close>

theorem binder_resolution:
  "(all_bound [] node \<longrightarrow>
      (\<exists>r. convert_dbj al k (Some node) = Inr r)
      \<and> convert al k (Some node) \<noteq> Inl UnknownVariableError)
   \<and> (resolved_in_place node \<longrightarrow> all_bound [] node \<longrightarrow> (\<exists>r. convert al k (Some node) = Inr r))
   \<and> (resolved_in_place node \<longrightarrow> \<not> all_bound [] node \<longrightarrow>
        convert_dbj al k (Some node) = Inl UnknownVariableError
        \<and> convert al k (Some node) = Inl UnknownVariableError)"
  using convert_subset_dbj_ok[of "[]" node al k 0]
    convert_subset_bound[of "[]" node al k 0]
    convert_subset_ok[of node "[]" al k 0]
    convert_subset_dbj_unbound[of node "[]" al k 0]
    convert_subset_unbound[of node "[]" al k 0]
    errors_distinct2
  by (auto simp: convert_dbj_def convert_def)

theorem binder_resolution_witness:
  "all_bound [] (DEFINITION ''x'' (ATOMIC ''x''))
   \<and> resolved_in_place (DEFINITION ''x'' (ATOMIC ''x''))
   \<and> (\<exists>r. convert_dbj id 0 (Some (DEFINITION ''x'' (ATOMIC ''x''))) = Inr r)
   \<and> (\<exists>r. convert id 0 (Some (DEFINITION ''x'' (ATOMIC ''x''))) = Inr r)
   \<and> resolved_in_place (DEFINITION ''x'' (ATOMIC ''y''))
   \<and> \<not> all_bound [] (DEFINITION ''x'' (ATOMIC ''y''))
   \<and> convert_dbj id 0 (Some (DEFINITION ''x'' (ATOMIC ''y''))) = Inl UnknownVariableError
   \<and> convert id 0 (Some (DEFINITION ''x'' (ATOMIC ''y''))) = Inl UnknownVariableError"
  using binder_resolution[of "DEFINITION ''x'' (ATOMIC ''x'')" id 0]
    binder_resolution[of "DEFINITION ''x'' (ATOMIC ''y'')" id 0]
  by simp

text \<open>
  Claim C4 on the source \<^verbatim>\<open>\y.(x) y\<close>, which refers to \<open>x\<close>, enclosed by no definition
  of \<open>x\<close>. The claim has both conversions fail with the error of an unknown variable.
  The variable is the child of a group, where neither converter looks it up: the
  De Bruijn conversion returns a term, and the name-preserving conversion throws
  \<^verbatim>\<open>Huh??\<close>.
\<close>

theorem unbound_in_group_not_reported:
  "parse_text ([CHR 0x5C] @ ''y.(x) y'') =
     Some (Inr (Some (DEFINITION ''y'' (APPLICATION (GROUP (Some (ATOMIC ''x''))) (ATOMIC ''y'')))))
   \<and> \<not> all_bound [] (DEFINITION ''y'' (APPLICATION (GROUP (Some (ATOMIC ''x''))) (ATOMIC ''y'')))
   \<and> display_dbj id ([CHR 0x5C] @ ''y.(x) y'') =
       Some (Inr (''{'' @ lambda_marker @ '', {{{}}, 1}}''))
   \<and> display_slc id ([CHR 0x5C] @ ''y.(x) y'') = Some (Inl HuhError)
   \<and> HuhError \<noteq> UnknownVariableError"
  by code_simp

lemma make_number_loop_counter: "k \<le> snd (make_number_loop al k i n t)"
proof (induction "nat (n - i)" arbitrary: i k t)
  case 0
  then have "\<not> i < n" by simp
  then show ?case by (simp add: make_number_loop_done)
next
  case (Suc m)
  have lt: "i < n" and m: "m = nat (n - (i + 1))" using Suc.hyps(2) by auto
  show ?case
    unfolding make_number_loop_step[OF lt]
    using Suc.hyps(1)[OF m, of "Suc k"] by (meson Suc_leD)
qed

lemma make_number_counter: "k \<le> snd (make_number al k n)"
  using make_number_loop_counter[of "Suc (Suc (Suc k))" al 1 n]
  by (simp add: make_number_def make_shared_def Let_def) (meson Suc_leD)

lemma number_element_form:
  "\<exists>j. number_element al k n = (SharedPtr (al j) (fst (make_number al k n)), Suc j) \<and> k \<le> j"
  using make_number_counter[of k al n]
  by (cases "make_number al k n") (simp add: number_element_def make_shared_def)

lemma operand_dbj_form:
  assumes "operand_dbj al k n d captured = Inr (p, k')"
    and "\<And>s k'. convert_subset_dbj al k (Some n) d captured = Inr (s, k') \<Longrightarrow> k \<le> k'"
  shows "operand_form al k p k'"
proof (cases "is_atomic n")
  case True
  then obtain v where "n = ATOMIC v" by (cases n) auto
  then show ?thesis using assms(1)
    by (auto simp: operand_dbj_def operand_form_def split: option.splits)
next
  case False
  then have "operand_dbj al k n d captured =
    (case convert_subset_dbj al k (Some n) d captured of
       Inl e \<Rightarrow> Inl e | Inr (sub_set, k1) \<Rightarrow> Inr (make_shared al k1 sub_set))"
    by (cases n) (simp_all add: operand_dbj_def)
  then obtain s k1 where c: "convert_subset_dbj al k (Some n) d captured = Inr (s, k1)"
    and p: "p = SharedPtr (al k1) s" "k' = Suc k1"
    using assms(1) by (auto simp: make_shared_def split: sum.splits)
  have "k \<le> k1" using assms(2)[OF c] .
  then show ?thesis using p by (simp add: operand_form_def)
qed

lemma convert_subset_dbj_counter:
  "convert_subset_dbj al k (Some node) d captured = Inr (s, k') \<Longrightarrow> k \<le> k'"
proof (induction node arbitrary: k d captured s k')
  case (APPLICATION l r)
  obtain p k3 q where P: "operand_dbj al k l d captured = Inr (p, k3)"
    and Q: "operand_dbj al (Suc k3) r d captured = Inr (q, k')"
    using APPLICATION.prems
    by (auto simp: convert_subset_dbj_APPLICATION split: sum.splits)
  have "operand_form al k p k3" using operand_dbj_form[OF P] APPLICATION.IH(1) by blast
  moreover have "operand_form al (Suc k3) q k'" using operand_dbj_form[OF Q] APPLICATION.IH(2) by blast
  ultimately show ?case by (simp add: operand_form_def)
next
  case (DEFINITION v b)
  obtain p where P: "operand_dbj al k b (d + 1) (v # captured) = Inr (p, k')"
    using DEFINITION.prems
    by (auto simp: convert_subset_dbj_DEFINITION split: sum.splits)
  have "operand_form al k p k'" using operand_dbj_form[OF P] DEFINITION.IH by blast
  then show ?case by (simp add: operand_form_def)
next
  case (ATOMIC v)
  then show ?case by simp
next
  case (GROUP g)
  show ?case
  proof (cases g)
    case None
    then show ?thesis using GROUP.prems by simp
  next
    case (Some n)
    then show ?thesis using GROUP.IH[of n] GROUP.prems by simp
  qed
qed

lemma operand_slc_form:
  assumes "operand_slc al k n d captured = Inr (p, k')"
    and "\<And>s k'. convert_subset al k (Some n) d captured = Inr (s, k') \<Longrightarrow> k \<le> k'"
  shows "\<exists>j s. p = SharedPtr (al j) s \<and> k \<le> j \<and> k' = Suc j"
proof (cases "is_atomic n")
  case True
  then obtain v where n: "n = ATOMIC v" by (cases n) auto
  then obtain i where "find_distance captured v = Some i"
    and pk: "(p, k') = number_element al k (int i + 1)"
    using assms(1) by (auto simp: operand_slc_def split: option.splits)
  then show ?thesis using number_element_form[of al k "int i + 1"] by auto
next
  case False
  then have "operand_slc al k n d captured =
    (case convert_subset al k (Some n) d captured of
       Inl e \<Rightarrow> Inl e | Inr (sub_set, k1) \<Rightarrow> Inr (make_shared al k1 sub_set))"
    by (cases n) (simp_all add: operand_slc_def)
  then obtain s k1 where c: "convert_subset al k (Some n) d captured = Inr (s, k1)"
    and p: "p = SharedPtr (al k1) s" "k' = Suc k1"
    using assms(1) by (auto simp: make_shared_def split: sum.splits)
  have "k \<le> k1" using assms(2)[OF c] .
  then show ?thesis using p by simp
qed

lemma convert_subset_counter:
  "convert_subset al k (Some node) d captured = Inr (s, k') \<Longrightarrow> k \<le> k'"
proof (induction node arbitrary: k d captured s k')
  case (APPLICATION l r)
  obtain p k3 q where P: "operand_slc al k l d captured = Inr (p, k3)"
    and Q: "operand_slc al (Suc k3) r d captured = Inr (q, k')"
    using APPLICATION.prems
    by (auto simp: convert_subset_APPLICATION split: sum.splits)
  have "k \<le> k3" using operand_slc_form[OF P] APPLICATION.IH(1) by fastforce
  moreover have "Suc k3 \<le> k'" using operand_slc_form[OF Q] APPLICATION.IH(2) by fastforce
  ultimately show ?case by simp
next
  case (DEFINITION v b)
  obtain p where P: "operand_slc al (Suc (Suc k)) b (d + 1) (v # captured) = Inr (p, k')"
    using DEFINITION.prems
    by (auto simp: convert_subset_DEFINITION split: sum.splits)
  have "Suc (Suc k) \<le> k'" using operand_slc_form[OF P] DEFINITION.IH by fastforce
  then show ?case by simp
next
  case (ATOMIC v)
  then show ?case by simp
next
  case (GROUP g)
  show ?case
  proof (cases g)
    case None
    then show ?thesis using GROUP.prems by simp
  next
    case (Some n)
    then show ?thesis using GROUP.IH[of n] GROUP.prems by simp
  qed
qed

lemma shape_of_empty_set [simp]: "shape_of empty_set = SetS {#}"
  by (simp add: empty_set_def)

lemma shape_of_singleton: "shape_of (insert_element e empty_set) = SetS {#shape_of_element e#}"
  by (simp add: insert_element_def empty_set_def)

lemma shape_of_pair:
  "comparable e x \<Longrightarrow>
   shape_of (insert_element e (insert_element x empty_set)) = SetS {#shape_of_element e, shape_of_element x#}"
  using shapes_of_set_insert[of "[x]" e]
  by (simp add: insert_element_def empty_set_def)

lemma comparable_ptrs:
  assumes "inj al" "i \<noteq> j"
  shows "comparable (SharedPtr (al i) s) (SharedPtr (al j) t)"
proof -
  have "al i \<noteq> al j" using assms by (simp add: inj_eq)
  then show ?thesis by (auto simp: comparable_def)
qed

lemma comparable_kinds [simp]:
  "comparable (IntVal i) (SharedPtr a s)" "comparable (IntVal i) (StringView v)"
  "comparable (SharedPtr a s) (StringView v)"
  by (simp_all add: comparable_def)

lemma make_number_shape_formula:
  assumes "inj al" and "1 \<le> n"
  shows "shape_of (fst (make_number al k n)) =
           SetS (add_mset numeral_base_shape (replicate_mset (nat n - 1) (SetS {#})))"
  using make_number_facts[OF assms] by blast

lemma number_shape_make_number:
  assumes "inj al" and "1 \<le> n"
  shows "shape_of (fst (make_number al k n)) = number_shape n"
  using make_number_shape_formula[OF assms] make_number_shape_formula[of id n 0] assms(2)
  by (simp add: number_shape_def)

lemma operand_shapes:
  assumes "inj al'"
    and "operand_dbj al k n d captured = Inr (p, k1)"
    and "operand_slc al' k' n d' captured = Inr (p', k1')"
    and "\<And>s k1 s' k1'. convert_subset_dbj al k (Some n) d captured = Inr (s, k1) \<Longrightarrow>
           convert_subset al' k' (Some n) d' captured = Inr (s', k1') \<Longrightarrow>
           shape_of s' = encode (shape_of s)"
  shows "shape_of_element p' = encode (shape_of_element p)"
proof (cases "is_atomic n")
  case True
  then obtain v where n: "n = ATOMIC v" by (cases n) auto
  obtain i where i: "find_distance captured v = Some i" "p = IntVal (int i + 1)"
    using assms(2) n by (auto simp: operand_dbj_def split: option.splits)
  have "(p', k1') = number_element al' k' (int i + 1)"
    using assms(3) n i(1) by (simp add: operand_slc_def)
  then have "p' = SharedPtr (al' (snd (make_number al' k' (int i + 1)))) (fst (make_number al' k' (int i + 1)))"
    by (cases "make_number al' k' (int i + 1)") (simp add: number_element_def make_shared_def)
  then show ?thesis
    using number_shape_make_number[OF assms(1), of "int i + 1" k'] i(2) by simp
next
  case False
  have 1: "operand_dbj al k n d captured =
    (case convert_subset_dbj al k (Some n) d captured of
       Inl e \<Rightarrow> Inl e | Inr (sub_set, k1) \<Rightarrow> Inr (make_shared al k1 sub_set))"
    using False by (cases n) (simp_all add: operand_dbj_def)
  have 2: "operand_slc al' k' n d' captured =
    (case convert_subset al' k' (Some n) d' captured of
       Inl e \<Rightarrow> Inl e | Inr (sub_set, k1) \<Rightarrow> Inr (make_shared al' k1 sub_set))"
    using False by (cases n) (simp_all add: operand_slc_def)
  obtain s j where c: "convert_subset_dbj al k (Some n) d captured = Inr (s, j)"
    and p: "p = SharedPtr (al j) s"
    using assms(2) 1 by (auto simp: make_shared_def split: sum.splits)
  obtain s' j' where c': "convert_subset al' k' (Some n) d' captured = Inr (s', j')"
    and p': "p' = SharedPtr (al' j') s'"
    using assms(3) 2 by (auto simp: make_shared_def split: sum.splits)
  show ?thesis using assms(4)[OF c c'] p p' by simp
qed

lemma operand_form_comparable:
  assumes "inj al" "operand_form al k p k'" "j < k"
  shows "comparable p (SharedPtr (al j) t)" and "comparable p (StringView v)"
  using assms comparable_ptrs[OF assms(1)]
  by (auto simp: operand_form_def)

lemma convert_shapes:
  assumes "inj al" "inj al'"
  shows "convert_subset_dbj al k (Some node) d captured = Inr (s, k1) \<Longrightarrow>
         convert_subset al' k' (Some node) d' captured = Inr (s', k1') \<Longrightarrow>
         shape_of s' = encode (shape_of s)"
proof (induction node arbitrary: k k' d d' captured s s' k1 k1')
  case (APPLICATION l r)
  obtain p k3 q where P: "operand_dbj al k l d captured = Inr (p, k3)"
    and Q: "operand_dbj al (Suc k3) r d captured = Inr (q, k1)"
    and s: "s = insert_element q (insert_element (SharedPtr (al k3) (insert_element p empty_set)) empty_set)"
    using APPLICATION.prems(1)
    by (auto simp: convert_subset_dbj_APPLICATION split: sum.splits)
  obtain p' k3' q' where P': "operand_slc al' k' l d' captured = Inr (p', k3')"
    and Q': "operand_slc al' (Suc k3') r d' captured = Inr (q', k1')"
    and s': "s' = insert_element q' (insert_element (SharedPtr (al' k3') (insert_element p' empty_set)) empty_set)"
    using APPLICATION.prems(2)
    by (auto simp: convert_subset_APPLICATION split: sum.splits)
  have ep: "shape_of_element p' = encode (shape_of_element p)"
    using operand_shapes[OF assms(2) P P'] APPLICATION.IH(1) by blast
  have eq: "shape_of_element q' = encode (shape_of_element q)"
    using operand_shapes[OF assms(2) Q Q'] APPLICATION.IH(2) by blast
  have "operand_form al (Suc k3) q k1"
    using operand_dbj_form[OF Q] convert_subset_dbj_counter by blast
  then have cq: "comparable q (SharedPtr (al k3) (insert_element p empty_set))"
    using operand_form_comparable(1)[OF assms(1), of "Suc k3" q k1 k3] by simp
  obtain j' t' where "q' = SharedPtr (al' j') t'" "Suc k3' \<le> j'"
    using operand_slc_form[OF Q'] convert_subset_counter by blast
  then have cq': "comparable q' (SharedPtr (al' k3') (insert_element p' empty_set))"
    using comparable_ptrs[OF assms(2), of j' k3'] by simp
  show ?case
    unfolding s s' shape_of_pair[OF cq] shape_of_pair[OF cq']
    by (simp add: shape_of_singleton ep eq)
next
  case (DEFINITION v b)
  obtain p where P: "operand_dbj al k b (d + 1) (v # captured) = Inr (p, k1)"
    and s: "s = insert_element p (insert_element (StringView lambda_marker) empty_set)"
    using DEFINITION.prems(1)
    by (auto simp: convert_subset_dbj_DEFINITION split: sum.splits)
  obtain p' where P': "operand_slc al' (Suc (Suc k')) b (d' + 1) (v # captured) = Inr (p', k1')"
    and s': "s' = insert_element p' (insert_element
                    (SharedPtr (al' (Suc k')) (insert_element (SharedPtr (al' k') empty_set) empty_set))
                    empty_set)"
    using DEFINITION.prems(2)
    by (auto simp: convert_subset_DEFINITION split: sum.splits)
  have ep: "shape_of_element p' = encode (shape_of_element p)"
    using operand_shapes[OF assms(2) P P'] DEFINITION.IH by blast
  have "operand_form al k p k1"
    using operand_dbj_form[OF P] convert_subset_dbj_counter by blast
  then have cp: "comparable p (StringView lambda_marker)"
    by (auto simp: operand_form_def)
  obtain j' t' where "p' = SharedPtr (al' j') t'" "Suc (Suc k') \<le> j'"
    using operand_slc_form[OF P'] convert_subset_counter by blast
  then have cp': "comparable p' (SharedPtr (al' (Suc k')) (insert_element (SharedPtr (al' k') empty_set) empty_set))"
    using comparable_ptrs[OF assms(2), of j' "Suc k'"] by simp
  show ?case
    unfolding s s' shape_of_pair[OF cp] shape_of_pair[OF cp']
    by (simp add: shape_of_singleton ep)
next
  case (ATOMIC v)
  then show ?case by simp
next
  case (GROUP g)
  show ?case
  proof (cases g)
    case None
    then show ?thesis using GROUP.prems by auto
  next
    case (Some n)
    then show ?thesis using GROUP.IH[of n] GROUP.prems by simp
  qed
qed

text \<open>
  Claim C3. When both conversions of an AST return a term, the shape of the
  name-preserving term is the translation of the shape of the De Bruijn term: the same
  nesting, with \<^verbatim>\<open>make_number(n)\<close> wherever the De Bruijn term has the integer \<open>n\<close> and
  \<^verbatim>\<open>{{}}\<close> wherever it has the lambda marker. Both modes resolve every variable to the
  same distance. The addresses of the objects of each conversion are pairwise distinct.
\<close>

theorem modes_agree_on_distances:
  assumes "inj al" and "inj al'"
    and "convert_dbj al k root = Inr (s, k1)"
    and "convert al' k' root = Inr (s', k1')"
  shows "shape_of s' = encode (shape_of s)"
proof (cases root)
  case None
  then show ?thesis using assms(3,4)
    by (auto simp: convert_dbj_def convert_def)
next
  case (Some node)
  then show ?thesis
    using convert_shapes[OF assms(1,2), of k node 0 "[]" s k1 k' 0 s' k1'] assms(3,4)
    by (simp add: convert_dbj_def convert_def)
qed

theorem modes_agree_on_distances_witness:
  "inj (id :: nat \<Rightarrow> nat)
   \<and> convert_dbj id 0 (Some (DEFINITION ''x'' (DEFINITION ''y'' (ATOMIC ''x'')))) =
       Inr (SLC_set [StringView lambda_marker,
                     SharedPtr 0 (SLC_set [StringView lambda_marker, IntVal 2])], 1)
   \<and> (\<exists>s' k1'. convert id 0 (Some (DEFINITION ''x'' (DEFINITION ''y'' (ATOMIC ''x'')))) = Inr (s', k1')
        \<and> shape_of s' = SetS {#SetS {#SetS {#}#}, SetS {#SetS {#SetS {#}#}, number_shape 2#}#})"
proof -
  have i: "inj (id :: nat \<Rightarrow> nat)" by simp
  have d: "convert_dbj id 0 (Some (DEFINITION ''x'' (DEFINITION ''y'' (ATOMIC ''x'')))) =
       Inr (SLC_set [StringView lambda_marker,
                     SharedPtr 0 (SLC_set [StringView lambda_marker, IntVal 2])], 1)"
    by code_simp
  obtain s' k1' where
    c: "convert id 0 (Some (DEFINITION ''x'' (DEFINITION ''y'' (ATOMIC ''x'')))) = Inr (s', k1')"
    using convert_subset_ok[of "DEFINITION ''x'' (DEFINITION ''y'' (ATOMIC ''x''))" "[]" id 0 0]
    by (auto simp: convert_def)
  have "shape_of s' = SetS {#SetS {#SetS {#}#}, SetS {#SetS {#SetS {#}#}, number_shape 2#}#}"
    using modes_agree_on_distances[OF i i d c] by (simp add: lambda_marker_def)
  then show ?thesis using i d c by blast
qed

text \<open>
  Claim C10. An atomic node that is the root, bare or wrapped in any number of groups,
  matches no case of either switch: the De Bruijn conversion returns the empty set term
  and allocates nothing, the name-preserving conversion throws \<^verbatim>\<open>Huh??\<close>, which is not
  the error of an unknown variable. So it is for the sources \<^verbatim>\<open>x\<close> and \<^verbatim>\<open>(x)\<close>, where
  \<open>x\<close> is unbound.
\<close>

theorem bare_atomic_unhandled:
  "convert_subset_dbj al k (Some (grouped n (ATOMIC v))) lambda_depth captured = Inr (empty_set, k)
   \<and> convert_subset al k (Some (grouped n (ATOMIC v))) lambda_depth captured = Inl HuhError
   \<and> HuhError \<noteq> UnknownVariableError
   \<and> display_dbj al ''x'' = Some (Inr ''{}'')
   \<and> display_slc al ''x'' = Some (Inl HuhError)
   \<and> display_dbj al ''(x)'' = Some (Inr ''{}'')
   \<and> display_slc al ''(x)'' = Some (Inl HuhError)"
proof -
  have 1: "convert_subset_dbj al k (Some (grouped n (ATOMIC v))) lambda_depth captured = Inr (empty_set, k)"
    by (induction n) simp_all
  have 2: "convert_subset al k (Some (grouped n (ATOMIC v))) lambda_depth captured = Inl HuhError"
    by (induction n) simp_all
  have 3: "HuhError \<noteq> UnknownVariableError"
    by (simp add: HuhError_def UnknownVariableError_def)
  have 4: "display_dbj al ''x'' = Some (Inr ''{}'')" by code_simp
  have 5: "display_slc al ''x'' = Some (Inl HuhError)" by code_simp
  have 6: "display_dbj al ''(x)'' = Some (Inr ''{}'')" by code_simp
  have 7: "display_slc al ''(x)'' = Some (Inl HuhError)" by code_simp
  show ?thesis using 1 2 3 4 5 6 7 by blast
qed

section \<open>The set container\<close>

lemma variant_less_key: "variant_less a b \<longleftrightarrow> variant_key a < variant_key b"
  by (cases a; cases b) (auto simp: less_prod_def)

lemma equivalent_key: "equivalent a b \<longleftrightarrow> variant_key a = variant_key b"
  unfolding equivalent_def variant_less_key by auto

lemma equivalent_cases:
  "equivalent (StringView s) (StringView t) \<longleftrightarrow> s = t"
  "equivalent (IntVal i) (IntVal j) \<longleftrightarrow> i = j"
  "equivalent (SharedPtr a x) (SharedPtr b y) \<longleftrightarrow> a = b"
  "\<not> equivalent (StringView s) (IntVal j)" "\<not> equivalent (IntVal j) (StringView s)"
  "\<not> equivalent (StringView s) (SharedPtr b y)" "\<not> equivalent (SharedPtr b y) (StringView s)"
  "\<not> equivalent (IntVal j) (SharedPtr b y)" "\<not> equivalent (SharedPtr b y) (IntVal j)"
  by (simp_all add: equivalent_key)

lemma sorted_wrt_key: "sorted_wrt variant_less es \<longleftrightarrow> sorted_wrt (<) (map variant_key es)"
  by (simp add: sorted_wrt_map variant_less_key[abs_def])

lemma set_insert_present:
  "sorted_wrt variant_less es \<Longrightarrow> x \<in> set es \<Longrightarrow> equivalent e x \<Longrightarrow> set_insert e es = es"
proof (induction es)
  case Nil
  then show ?case by simp
next
  case (Cons y ys)
  have k: "variant_key e = variant_key x" using Cons.prems(3) by (simp add: equivalent_key)
  have ge: "variant_key y \<le> variant_key x"
    using Cons.prems(1,2) by (auto simp: variant_less_key)
  then have nl: "\<not> variant_less e y" by (simp add: variant_less_key k)
  show ?case
  proof (cases "variant_less y e")
    case True
    then have "x \<noteq> y" by (auto simp: variant_less_key k)
    then show ?thesis using Cons nl True by simp
  next
    case False
    then show ?thesis using nl by simp
  qed
qed

lemma set_insert_sorted:
  "sorted_wrt variant_less es \<Longrightarrow> sorted_wrt variant_less (set_insert e es)"
proof (induction es)
  case Nil
  then show ?case by simp
next
  case (Cons y ys)
  have sub: "set (set_insert e ys) \<subseteq> insert e (set ys)" for ys
    by (induction ys) auto
  show ?case
  proof (cases "variant_less e y")
    case True
    then show ?thesis using Cons.prems by (auto simp: variant_less_key)
  next
    case False
    show ?thesis
    proof (cases "variant_less y e")
      case True
      then show ?thesis using False Cons sub[of ys] by auto
    next
      case False2: False
      then show ?thesis using False Cons.prems by simp
    qed
  qed
qed

lemma set_insert_subset: "set (set_insert e es) \<subseteq> insert e (set es)"
  by (induction es) auto

lemma set_insert_keys:
  "variant_key ` set (set_insert e es) = insert (variant_key e) (variant_key ` set es)"
proof (induction es)
  case Nil
  show ?case by simp
next
  case (Cons y ys)
  have "variant_key e = variant_key y" if "\<not> variant_less e y" "\<not> variant_less y e"
    using that by (auto simp: variant_less_key)
  then show ?case using Cons by auto
qed

lemma insert_all_facts:
  assumes "sorted_wrt variant_less (elements s)"
  shows "sorted_wrt variant_less (elements (insert_all es s))
    \<and> set (elements (insert_all es s)) \<subseteq> set es \<union> set (elements s)
    \<and> variant_key ` set (elements (insert_all es s)) = variant_key ` (set es \<union> set (elements s))"
  using assms
proof (induction es arbitrary: s)
  case Nil
  then show ?case by (simp add: insert_all_def)
next
  case (Cons e es)
  let ?s = "insert_element e s"
  have 1: "sorted_wrt variant_less (elements ?s)"
    using set_insert_sorted[OF Cons.prems] by simp
  have 2: "set (elements ?s) \<subseteq> insert e (set (elements s))"
    using set_insert_subset by simp
  have 3: "variant_key ` set (elements ?s) = insert (variant_key e) (variant_key ` set (elements s))"
    using set_insert_keys by simp
  have 4: "insert_all (e # es) s = insert_all es ?s" by (simp add: insert_all_def)
  show ?case unfolding 4 using Cons.IH[OF 1] 2 3 by auto
qed

lemma one_object_inj: "one_object_per_address E \<Longrightarrow> inj_on variant_key E"
proof (rule inj_onI)
  fix x y assume o: "one_object_per_address E" and "x \<in> E" "y \<in> E" "variant_key x = variant_key y"
  then show "x = y"
    unfolding one_object_per_address_def by (cases x; cases y) auto
qed

lemma insert_all_elements:
  assumes "one_object_per_address (set es)"
  shows "set (elements (insert_all es empty_set)) = set es"
proof -
  let ?R = "elements (insert_all es empty_set)"
  have f: "set ?R \<subseteq> set es" "variant_key ` set ?R = variant_key ` set es"
    using insert_all_facts[of empty_set es] by (simp_all add: empty_set_def)
  have "x \<in> set ?R" if "x \<in> set es" for x
  proof -
    have "variant_key x \<in> variant_key ` set ?R" unfolding f(2) using that by (rule imageI)
    then obtain y where y: "y \<in> set ?R" "variant_key x = variant_key y" by (rule imageE)
    have "y \<in> set es" using y(1) f(1) by (rule subsetD[rotated])
    then have "x = y" using inj_onD[OF one_object_inj[OF assms] y(2) that] by simp
    then show ?thesis using y(1) by simp
  qed
  then show ?thesis using f(1) by auto
qed

text \<open>
  Claim C1, as the code has it. Two set terms built from the empty term by inserting
  the same elements (the same symbols, integers and nested-set objects), in any order
  and any number of times, are the same term and render the same string. The elements
  are held in the order of the variant: symbols first, bytewise; then nested sets, by
  the address of their object; then integers.
\<close>

theorem insertion_order_independent:
  assumes "set xs = set ys" and "one_object_per_address (set xs)"
  shows "insert_all xs empty_set = insert_all ys empty_set
    \<and> to_string (insert_all xs empty_set) = to_string (insert_all ys empty_set)
    \<and> set (elements (insert_all xs empty_set)) = set xs
    \<and> sorted_wrt variant_less (elements (insert_all xs empty_set))"
proof -
  let ?R = "elements (insert_all xs empty_set)" and ?S = "elements (insert_all ys empty_set)"
  have sx: "sorted_wrt variant_less ?R" and sy: "sorted_wrt variant_less ?S"
    using insert_all_facts[of empty_set] by (simp_all add: empty_set_def)
  have ex: "set ?R = set xs" using insert_all_elements[OF assms(2)] .
  have ey: "set ?S = set xs" using insert_all_elements[of ys] assms by simp
  have "map variant_key ?R = map variant_key ?S"
    using sx sy ex ey by (intro strict_sorted_equal) (simp_all add: sorted_wrt_key)
  moreover have "inj_on variant_key (set ?R \<union> set ?S)"
    using one_object_inj[OF assms(2)] ex ey by simp
  ultimately have "?R = ?S" by (simp add: inj_on_map_eq_map)
  then have "insert_all xs empty_set = insert_all ys empty_set"
    by (simp add: SLC_set.expand)
  then show ?thesis using sx ex by simp
qed

theorem insertion_order_independent_witness:
  "set [IntVal 3, StringView ''a'', SharedPtr 7 empty_set] = set [SharedPtr 7 empty_set, IntVal 3, StringView ''a'', IntVal 3]
   \<and> one_object_per_address (set [IntVal 3, StringView ''a'', SharedPtr 7 empty_set])
   \<and> to_string (insert_all [IntVal 3, StringView ''a'', SharedPtr 7 empty_set] empty_set) = ''{a, {}, 3}''
   \<and> to_string (insert_all [SharedPtr 7 empty_set, IntVal 3, StringView ''a'', IntVal 3] empty_set) = ''{a, {}, 3}''"
proof -
  have 1: "set [IntVal 3, StringView ''a'', SharedPtr 7 empty_set] = set [SharedPtr 7 empty_set, IntVal 3, StringView ''a'', IntVal 3]"
    by auto
  have 2: "one_object_per_address (set [IntVal 3, StringView ''a'', SharedPtr 7 empty_set])"
    by (simp add: one_object_per_address_def)
  have 3: "to_string (insert_all [IntVal 3, StringView ''a'', SharedPtr 7 empty_set] empty_set) = ''{a, {}, 3}''"
    by code_simp
  have 4: "to_string (insert_all [SharedPtr 7 empty_set, IntVal 3, StringView ''a'', IntVal 3] empty_set) = ''{a, {}, 3}''"
    using insertion_order_independent[OF 1 2] 3 by metis
  show ?thesis
    using 1 2 3 4 by blast
qed

text \<open>
  Nested sets are compared by address, not by their rendering: the texts
  \<^verbatim>\<open>{{}, {{}}}\<close> and \<^verbatim>\<open>{{{}}, {}}\<close>, parsed with addresses that ascend, give two terms of
  the same shape (the same elements, structurally) that render differently.
\<close>

theorem same_shape_different_strings:
  "parse_toposet id 0 ''{{}, {{}}}'' =
     Inr (SLC_set [SharedPtr 0 (SLC_set []), SharedPtr 2 (SLC_set [SharedPtr 1 (SLC_set [])])])
   \<and> parse_toposet id 0 ''{{{}}, {}}'' =
     Inr (SLC_set [SharedPtr 1 (SLC_set [SharedPtr 0 (SLC_set [])]), SharedPtr 2 (SLC_set [])])
   \<and> shape_of (SLC_set [SharedPtr 0 (SLC_set []), SharedPtr 2 (SLC_set [SharedPtr 1 (SLC_set [])])])
     = shape_of (SLC_set [SharedPtr 1 (SLC_set [SharedPtr 0 (SLC_set [])]), SharedPtr 2 (SLC_set [])])
   \<and> to_string (SLC_set [SharedPtr 0 (SLC_set []), SharedPtr 2 (SLC_set [SharedPtr 1 (SLC_set [])])])
     = ''{{}, {{}}}''
   \<and> to_string (SLC_set [SharedPtr 1 (SLC_set [SharedPtr 0 (SLC_set [])]), SharedPtr 2 (SLC_set [])])
     = ''{{{}}, {}}''"
proof -
  have 1: "parse_toposet id 0 ''{{}, {{}}}'' =
     Inr (SLC_set [SharedPtr 0 (SLC_set []), SharedPtr 2 (SLC_set [SharedPtr 1 (SLC_set [])])])"
    by code_simp
  have 2: "parse_toposet id 0 ''{{{}}, {}}'' =
     Inr (SLC_set [SharedPtr 1 (SLC_set [SharedPtr 0 (SLC_set [])]), SharedPtr 2 (SLC_set [])])"
    by code_simp
  have 3: "shape_of (SLC_set [SharedPtr 0 (SLC_set []), SharedPtr 2 (SLC_set [SharedPtr 1 (SLC_set [])])])
     = shape_of (SLC_set [SharedPtr 1 (SLC_set [SharedPtr 0 (SLC_set [])]), SharedPtr 2 (SLC_set [])])"
    by (simp add: add_mset_commute)
  have 4: "to_string (SLC_set [SharedPtr 0 (SLC_set []), SharedPtr 2 (SLC_set [SharedPtr 1 (SLC_set [])])])
     = ''{{}, {{}}}''"
    by simp
  have 5: "to_string (SLC_set [SharedPtr 1 (SLC_set [SharedPtr 0 (SLC_set [])]), SharedPtr 2 (SLC_set [])])
     = ''{{{}}, {}}''"
    by simp
  show ?thesis using 1 2 3 4 5 by blast
qed

text \<open>
  Claim C2, as the code has it. Inserting an element equivalent to one that is present
  leaves the term and its rendering unchanged. Two symbols are equivalent when they are
  the same text, two integers when they are the same number, two nested sets when they
  are at the same address, that is, the same object; elements of different kinds never
  are.
\<close>

theorem insertion_idempotent:
  assumes "sorted_wrt variant_less (elements s)" and "x \<in> set (elements s)" and "equivalent e x"
  shows "insert_element e s = s \<and> to_string (insert_element e s) = to_string s
    \<and> (equivalent (StringView v) (StringView w) \<longleftrightarrow> v = w)
    \<and> (equivalent (IntVal i) (IntVal j) \<longleftrightarrow> i = j)
    \<and> (equivalent (SharedPtr a t) (SharedPtr b u) \<longleftrightarrow> a = b)"
  using set_insert_present[OF assms] by (simp add: insert_element_def equivalent_cases)

theorem insertion_idempotent_witness:
  "sorted_wrt variant_less (elements (SLC_set [StringView ''a'', SharedPtr 7 empty_set, IntVal 3]))
   \<and> SharedPtr 7 empty_set \<in> set (elements (SLC_set [StringView ''a'', SharedPtr 7 empty_set, IntVal 3]))
   \<and> equivalent (SharedPtr 7 empty_set) (SharedPtr 7 empty_set)
   \<and> insert_element (SharedPtr 7 empty_set) (SLC_set [StringView ''a'', SharedPtr 7 empty_set, IntVal 3])
       = SLC_set [StringView ''a'', SharedPtr 7 empty_set, IntVal 3]"
proof -
  have 1: "sorted_wrt variant_less (elements (SLC_set [StringView ''a'', SharedPtr 7 empty_set, IntVal 3]))"
    by simp
  have 2: "SharedPtr 7 empty_set \<in> set (elements (SLC_set [StringView ''a'', SharedPtr 7 empty_set, IntVal 3]))"
    by simp
  have 3: "equivalent (SharedPtr 7 empty_set) (SharedPtr 7 empty_set)"
    by (simp add: equivalent_def)
  show ?thesis using insertion_idempotent[OF 1 2 3] 1 2 3 by blast
qed

text \<open>
  A nested set that is structurally identical to one present, but another object, is a
  new element: inserting a second empty set into \<^verbatim>\<open>{{}}\<close> gives \<^verbatim>\<open>{{}, {}}\<close>, as the
  base of every numeral needs.
\<close>

theorem identical_nested_set_is_added:
  "shape_of_element (SharedPtr 1 empty_set) = shape_of_element (SharedPtr 0 empty_set)
   \<and> SharedPtr 0 empty_set \<in> set (elements (insert_element (SharedPtr 0 empty_set) empty_set))
   \<and> to_string (insert_element (SharedPtr 0 empty_set) empty_set) = ''{{}}''
   \<and> to_string (insert_element (SharedPtr 1 empty_set) (insert_element (SharedPtr 0 empty_set) empty_set))
       = ''{{}, {}}''"
  by (simp add: insert_element_def empty_set_def)

section \<open>The lexer and the parser\<close>

lemma skip_space_Some:
  "pos < length str \<Longrightarrow> skip_space str pos = Some p \<Longrightarrow> pos \<le> p \<and> p < length str"
proof (induction str pos rule: skip_space.induct)
  case (1 str pos)
  show ?case
  proof (cases "isspace (str ! pos)")
    case False
    then show ?thesis using "1.prems" by (simp add: skip_space.simps[of str pos])
  next
    case True
    note sp = this
    show ?thesis
    proof (cases "Suc pos \<ge> length str")
      case True
      then show ?thesis using "1.prems" sp by (simp add: skip_space.simps[of str pos])
    next
      case False
      then have "skip_space str (Suc pos) = Some p"
        using "1.prems" sp by (simp add: skip_space.simps[of str pos])
      then show ?thesis using "1.IH"[OF sp False] False by simp
    qed
  qed
qed

lemma scan_alnum_bounds:
  "pos < length str \<Longrightarrow> pos \<le> scan_alnum str pos \<and> scan_alnum str pos \<le> length str"
proof (induction str pos rule: scan_alnum.induct)
  case (1 str pos)
  show ?case
  proof (cases "isalnum (str ! pos)")
    case False
    then show ?thesis using "1.prems" by (simp add: scan_alnum.simps[of str pos])
  next
    case True
    note an = this
    show ?thesis
    proof (cases "Suc pos \<ge> length str")
      case True
      then show ?thesis using "1.prems" an by (simp add: scan_alnum.simps[of str pos])
    next
      case False
      then show ?thesis using "1.IH"[OF an False] an
        by (simp add: scan_alnum.simps[of str pos])
    qed
  qed
qed

lemma scan_alnum_advances:
  "pos < length str \<Longrightarrow> isalnum (str ! pos) \<Longrightarrow> pos < scan_alnum str pos"
  using scan_alnum_bounds[of "Suc pos" str]
  by (cases "Suc pos \<ge> length str") (simp_all add: scan_alnum.simps[of str pos])

lemma lexer_next_token_facts:
  assumes "lexer_next_token lx = Inr (t, lx')"
  shows "lexer_text lx' = lexer_text lx"
    and "length (lexer_text lx) - lexer_pos lx' \<le> length (lexer_text lx) - lexer_pos lx"
    and "tok_type t \<noteq> EOF_TOK \<Longrightarrow>
           length (lexer_text lx) - lexer_pos lx' < length (lexer_text lx) - lexer_pos lx"
    and "tok_type t = C_PAREN \<Longrightarrow> CHR '')'' \<in> set (lexer_text lx)"
proof -
  let ?text = "lexer_text lx" and ?pos = "lexer_pos lx"
  show "lexer_text lx' = lexer_text lx"
    using assms
    by (auto simp: lexer_next_token_def Let_def split: if_splits option.splits)
  show "length ?text - lexer_pos lx' \<le> length ?text - ?pos"
  proof (cases "?pos \<ge> length ?text")
    case True
    then show ?thesis using assms by (simp add: lexer_next_token_def)
  next
    case False
    then have lt: "?pos < length ?text" by simp
    show ?thesis
    proof (cases "skip_space ?text ?pos")
      case None
      then show ?thesis using assms lt by (auto simp: lexer_next_token_def)
    next
      case (Some p)
      then have p: "?pos \<le> p" "p < length ?text" using skip_space_Some[OF lt] by auto
      have "p \<le> scan_alnum ?text p" using scan_alnum_bounds[OF p(2)] by simp
      then show ?thesis using assms lt Some p
        by (auto simp: lexer_next_token_def Let_def split: if_splits)
    qed
  qed
  show "length ?text - lexer_pos lx' < length ?text - ?pos" if "tok_type t \<noteq> EOF_TOK"
  proof (cases "?pos \<ge> length ?text")
    case True
    then show ?thesis using assms that by (auto simp: lexer_next_token_def)
  next
    case False
    then have lt: "?pos < length ?text" by simp
    show ?thesis
    proof (cases "skip_space ?text ?pos")
      case None
      then show ?thesis using assms lt that by (auto simp: lexer_next_token_def)
    next
      case (Some p)
      then have p: "?pos \<le> p" "p < length ?text" using skip_space_Some[OF lt] by auto
      have a: "isalnum (?text ! p) \<Longrightarrow> p < scan_alnum ?text p \<and> scan_alnum ?text p \<le> length ?text"
        using scan_alnum_advances[OF p(2)] scan_alnum_bounds[OF p(2)] by simp
      show ?thesis using assms lt Some p a
        by (auto simp: lexer_next_token_def Let_def split: if_splits)
    qed
  qed
  show "CHR '')'' \<in> set ?text" if "tok_type t = C_PAREN"
  proof (cases "?pos \<ge> length ?text")
    case True
    then show ?thesis using assms that by (auto simp: lexer_next_token_def)
  next
    case False
    then have lt: "?pos < length ?text" by simp
    show ?thesis
    proof (cases "skip_space ?text ?pos")
      case None
      then show ?thesis using assms lt that by (auto simp: lexer_next_token_def)
    next
      case (Some p)
      then have p: "p < length ?text" using skip_space_Some[OF lt] by auto
      have "?text ! p = CHR '')''"
        using assms lt Some that
        by (auto simp: lexer_next_token_def Let_def split: if_splits)
      then show ?thesis using nth_mem[OF p] by simp
    qed
  qed
qed

lemma lexer_next_token_error:
  "lexer_next_token lx = Inl e \<Longrightarrow> e = InvalidTokenError"
  by (auto simp: lexer_next_token_def Let_def split: if_splits option.splits)

lemma non_eof_append [simp]: "non_eof (xs @ ys) = non_eof xs + non_eof ys"
  by (simp add: non_eof_def)

lemma non_eof_take_le: "non_eof (take i ts) \<le> non_eof (take j ts)" if "i \<le> j"
proof -
  have "take j ts = take i ts @ take (j - i) (drop i ts)"
    using that by (metis le_add_diff_inverse take_add)
  then show ?thesis by simp
qed

lemma non_eof_take_total: "non_eof (take i ts) \<le> non_eof ts"
  using non_eof_take_le[of i "length ts" ts] by (cases "i \<le> length ts") simp_all

lemma consumed_le_total: "consumed p \<le> lexed_total p"
  using non_eof_take_total[of "parser_token_id p" "parser_tokens p"]
  by (simp add: consumed_def lexed_total_def)

lemma later_refl: "well_formed p \<Longrightarrow> later p p"
  by (simp add: later_def)

lemma later_length: "later p p' \<Longrightarrow> length (parser_tokens p) \<le> length (parser_tokens p')"
  unfolding later_def by (metis length_take min.cobounded1 min.commute)

lemma later_trans:
  assumes "later p p'" "later p' p''"
  shows "later p p''"
proof -
  have "take (length (parser_tokens p)) (parser_tokens p'') =
        take (length (parser_tokens p)) (take (length (parser_tokens p')) (parser_tokens p''))"
    using later_length[OF assms(1)] by (simp add: min_def)
  then have "take (length (parser_tokens p)) (parser_tokens p'') = parser_tokens p"
    using assms unfolding later_def by simp
  then show ?thesis using assms unfolding later_def by simp
qed

lemma later_consumed:
  assumes "well_formed p" "later p p'"
  shows "consumed p \<le> consumed p'"
proof -
  let ?i = "parser_token_id p" and ?ts = "parser_tokens p" and ?ts' = "parser_tokens p'"
  have "take ?i ?ts = take ?i (take (length ?ts) ?ts')"
    using assms(2) by (simp add: later_def)
  also have "\<dots> = take ?i ?ts'"
    using assms(1) by (simp add: well_formed_def min_def)
  finally have "non_eof (take ?i ?ts) = non_eof (take ?i ?ts')" by simp
  moreover have "non_eof (take ?i ?ts') \<le> non_eof (take (parser_token_id p') ?ts')"
    using assms(2) by (intro non_eof_take_le) (simp add: later_def)
  ultimately show ?thesis by (simp add: consumed_def)
qed

lemma later_budget:
  assumes "well_formed p" "later p p'"
  shows "budget p' \<le> budget p"
  using later_consumed[OF assms] assms(2) unfolding budget_def later_def by linarith

lemma later_reset:
  assumes "well_formed p" "later p p'"
  shows "later p (p'\<lparr>parser_token_id := parser_token_id p\<rparr>)"
  using assms later_length[OF assms(2)]
  by (auto simp: later_def well_formed_def lexed_total_def unread_def)

lemma parser_next_token_error:
  "parser_next_token p = Inl e \<Longrightarrow> e = InvalidTokenError"
  using lexer_next_token_error
  by (auto simp: parser_next_token_def Let_def split: if_splits sum.splits)

lemma take_Suc_peek:
  "parser_token_id p < length (parser_tokens p) \<Longrightarrow>
   take (Suc (parser_token_id p)) (parser_tokens p) = take (parser_token_id p) (parser_tokens p) @ [peek p]"
  by (simp add: peek_def take_Suc_conv_app_nth)

lemma parser_next_token_advance:
  assumes "well_formed p" "tok_type (peek p) \<noteq> EOF_TOK" "parser_next_token p = Inr p'"
  shows "later p p' \<and> budget p' < budget p"
proof -
  let ?i = "parser_token_id p" and ?ts = "parser_tokens p"
  have i: "?i < length ?ts" using assms(1) by (simp add: well_formed_def)
  have cp: "consumed p' = Suc (consumed p) \<and> later p p'"
  proof (cases "Suc ?i \<ge> length ?ts")
    case False
    then have p': "p' = p\<lparr>parser_token_id := Suc ?i\<rparr>"
      using assms(3) by (simp add: parser_next_token_def Let_def)
    have "consumed p' = Suc (consumed p)"
      using take_Suc_peek[OF i] assms(2) by (simp add: p' consumed_def non_eof_def)
    moreover have "later p p'"
      using assms(1) False by (auto simp: p' later_def well_formed_def lexed_total_def unread_def)
    ultimately show ?thesis by simp
  next
    case True
    then obtain t lx' where l: "lexer_next_token (parser_lexer p) = Inr (t, lx')"
      and p': "p' = p\<lparr>parser_token_id := Suc ?i, parser_lexer := lx', parser_tokens := ?ts @ [t]\<rparr>"
      using assms(3) by (auto simp: parser_next_token_def Let_def split: sum.splits)
    note f = lexer_next_token_facts[OF l]
    have "take (Suc ?i) (?ts @ [t]) = take ?i ?ts @ [peek p]"
      using take_Suc_peek[OF i] i by simp
    then have c: "consumed p' = Suc (consumed p)"
      using assms(2) by (simp add: p' consumed_def non_eof_def)
    have tot: "lexed_total p' \<le> lexed_total p"
      using f(2,3) f(1) by (cases "tok_type t = EOF_TOK") (auto simp: p' lexed_total_def unread_def non_eof_def)
    have wf: "well_formed p'"
      using assms(1) True f(1,4) by (auto simp: p' well_formed_def)
    have "later p p'"
      using f(1) tot wf by (simp add: later_def) (simp add: p')
    then show ?thesis using c by simp
  qed
  have "consumed p' \<le> lexed_total p'" by (rule consumed_le_total)
  moreover have "lexed_total p' \<le> lexed_total p" using cp by (simp add: later_def)
  ultimately show ?thesis using cp unfolding budget_def by linarith
qed

lemma consume_type_facts:
  assumes "well_formed p" "ty \<noteq> EOF_TOK"
  shows "consume_type ty p = Inl e \<Longrightarrow> e = InvalidTokenError"
    and "consume_type ty p = Inr (False, p') \<Longrightarrow> p' = p \<and> tok_type (peek p) \<noteq> ty"
    and "consume_type ty p = Inr (True, p') \<Longrightarrow>
           later p p' \<and> budget p' < budget p \<and> tok_type (peek p) = ty"
proof -
  show "consume_type ty p = Inl e \<Longrightarrow> e = InvalidTokenError"
    using parser_next_token_error[of p e]
    by (auto simp: consume_type_def split: if_splits sum.splits)
  show "consume_type ty p = Inr (False, p') \<Longrightarrow> p' = p \<and> tok_type (peek p) \<noteq> ty"
    by (auto simp: consume_type_def split: if_splits sum.splits)
  show "later p p' \<and> budget p' < budget p \<and> tok_type (peek p) = ty"
    if c: "consume_type ty p = Inr (True, p')"
  proof -
    have t: "tok_type (peek p) = ty" and n: "parser_next_token p = Inr p'"
      using c by (auto simp: consume_type_def split: if_splits sum.splits)
    show ?thesis using parser_next_token_advance[OF assms(1) _ n] t assms(2) by simp
  qed
qed

lemma consume_variable_facts:
  assumes "well_formed p"
  shows "consume_variable p = Inl e \<Longrightarrow> e = InvalidTokenError"
    and "consume_variable p = Inr (None, p') \<Longrightarrow> p' = p \<and> tok_type (peek p) \<noteq> VARIABLE"
    and "consume_variable p = Inr (Some node, p') \<Longrightarrow>
           later p p' \<and> budget p' < budget p \<and> tok_type (peek p) = VARIABLE"
proof -
  show "consume_variable p = Inl e \<Longrightarrow> e = InvalidTokenError"
    using parser_next_token_error[of p e]
    by (auto simp: consume_variable_def split: if_splits sum.splits)
  show "consume_variable p = Inr (None, p') \<Longrightarrow> p' = p \<and> tok_type (peek p) \<noteq> VARIABLE"
    by (auto simp: consume_variable_def split: if_splits sum.splits)
  show "later p p' \<and> budget p' < budget p \<and> tok_type (peek p) = VARIABLE"
    if c: "consume_variable p = Inr (Some node, p')"
  proof -
    have t: "tok_type (peek p) = VARIABLE" and n: "parser_next_token p = Inr p'"
      using c by (auto simp: consume_variable_def split: if_splits sum.splits)
    show ?thesis using parser_next_token_advance[OF assms(1) _ n] t by simp
  qed
qed

lemma parsed_ok_simps [simp]:
  "parsed_ok p (Inl e) \<longleftrightarrow> e = UnbalancedParenError \<or> e = InvalidTokenError"
  "parsed_ok p (Inr (node, p')) \<longleftrightarrow> later p p' \<and> (node \<noteq> None \<longrightarrow> budget p' < budget p)"
  by (simp_all add: parsed_ok_def)

lemma applied_ok_simps [simp]:
  "applied_ok p (Inl e) \<longleftrightarrow> e = UnbalancedParenError \<or> e = InvalidTokenError"
  "applied_ok p (Inr (node, p')) \<longleftrightarrow> later p p' \<and> node \<noteq> None"
  by (simp_all add: applied_ok_def)

lemma later_wf: "later p p' \<Longrightarrow> well_formed p'"
  by (simp add: later_def)

lemma parse_atomic_step:
  assumes E: "\<And>q. well_formed q \<Longrightarrow> 2 * budget q + 2 \<le> n \<Longrightarrow>
                 \<exists>r. parse_expression n q = Some r \<and> parsed_ok q r"
    and wf: "well_formed p" and fuel: "2 * budget p \<le> n"
  shows "\<exists>r. parse_atomic (Suc n) p = Some r \<and> parsed_ok p r"
proof (cases "consume_type O_PAREN p")
  case (Inl e)
  then show ?thesis using consume_type_facts(1)[OF wf _ Inl] by simp
next
  case (Inr bp)
  obtain b p1 where bp: "bp = (b, p1)" by (cases bp)
  show ?thesis
  proof (cases b)
    case False
    then have c: "consume_type O_PAREN p = Inr (False, p1)" using Inr bp by simp
    then have p1: "p1 = p" using consume_type_facts(2)[OF wf _ c] by simp
    show ?thesis
    proof (cases "consume_variable p")
      case (Inl e)
      then show ?thesis using c p1 consume_variable_facts(1)[OF wf Inl] by simp
    next
      case (Inr np)
      obtain node p2 where np: "np = (node, p2)" by (cases np)
      show ?thesis
      proof (cases node)
        case None
        then show ?thesis
          using c p1 Inr np consume_variable_facts(2)[OF wf, of p2] later_refl[OF wf] by simp
      next
        case (Some v)
        then show ?thesis
          using c p1 Inr np consume_variable_facts(3)[OF wf, of v p2] by simp
      qed
    qed
  next
    case True
    then have c: "consume_type O_PAREN p = Inr (True, p1)" using Inr bp by simp
    have l1: "later p p1" and b1: "budget p1 < budget p"
      using consume_type_facts(3)[OF wf _ c] by simp_all
    have wf1: "well_formed p1" using l1 by (rule later_wf)
    obtain r where r: "parse_expression n p1 = Some r" "parsed_ok p1 r"
      using E[OF wf1] b1 fuel by fastforce
    show ?thesis
    proof (cases r)
      case (Inl e)
      then show ?thesis using c r by simp
    next
      case (Inr np)
      obtain right p2 where np: "np = (right, p2)" by (cases np)
      have l2: "later p1 p2" using r(2) Inr np by simp
      have wf2: "well_formed p2" using l2 by (rule later_wf)
      have b2: "budget p2 \<le> budget p1" using later_budget[OF wf1 l2] .
      show ?thesis
      proof (cases "consume_type C_PAREN p2")
        case (Inl e)
        then show ?thesis
          using c r Inr np consume_type_facts(1)[OF wf2 _ Inl] by simp
      next
        case Inr2: (Inr bp3)
        obtain b3 p3 where bp3: "bp3 = (b3, p3)" by (cases bp3)
        show ?thesis
        proof (cases b3)
          case False
          then show ?thesis using c r Inr np Inr2 bp3 by simp
        next
          case True
          then have c3: "consume_type C_PAREN p2 = Inr (True, p3)" using Inr2 bp3 by simp
          have l3: "later p2 p3" and b3: "budget p3 < budget p2"
            using consume_type_facts(3)[OF wf2 _ c3] by simp_all
          have "later p p3" using later_trans[OF l1 later_trans[OF l2 l3]] .
          moreover have "budget p3 < budget p" using b1 b2 b3 by simp
          ultimately show ?thesis using c r Inr np c3 by simp
        qed
      qed
    qed
  qed
qed

lemma parse_abstraction_step:
  assumes E: "\<And>q. well_formed q \<Longrightarrow> 2 * budget q + 2 \<le> n \<Longrightarrow>
                 \<exists>r. parse_expression n q = Some r \<and> parsed_ok q r"
    and wf: "well_formed p" and fuel: "2 * budget p \<le> n"
  shows "\<exists>r. parse_abstraction (Suc n) p = Some r \<and> parsed_ok p r"
proof -
  have undo: "later p q \<Longrightarrow> parsed_ok p (Inr (None, q\<lparr>parser_token_id := parser_token_id p\<rparr>))" for q
    using later_reset[OF wf] by simp
  show ?thesis
  proof (cases "consume_type LAMBDA p")
    case (Inl e)
    then show ?thesis using consume_type_facts(1)[OF wf _ Inl] by simp
  next
    case (Inr bp)
    obtain b p1 where bp: "bp = (b, p1)" by (cases bp)
    show ?thesis
    proof (cases b)
      case False
      then have c: "consume_type LAMBDA p = Inr (False, p1)" using Inr bp by simp
      then have "p1 = p" using consume_type_facts(2)[OF wf _ c] by simp
      then show ?thesis using c undo[OF later_refl[OF wf]] by simp
    next
      case True
      then have c1: "consume_type LAMBDA p = Inr (True, p1)" using Inr bp by simp
      have l1: "later p p1" and b1: "budget p1 < budget p"
        using consume_type_facts(3)[OF wf _ c1] by simp_all
      have wf1: "well_formed p1" using l1 by (rule later_wf)
      show ?thesis
      proof (cases "consume_variable p1")
        case (Inl e)
        then show ?thesis using c1 consume_variable_facts(1)[OF wf1 Inl] by simp
      next
        case Inr2: (Inr np)
        obtain var p2 where np: "np = (var, p2)" by (cases np)
        show ?thesis
        proof (cases var)
          case None
          then have "p2 = p1" using consume_variable_facts(2)[OF wf1, of p2] Inr2 np by simp
          then show ?thesis using c1 Inr2 np None undo[OF l1] by simp
        next
          case (Some v)
          then have c2: "consume_variable p1 = Inr (Some v, p2)" using Inr2 np by simp
          have l2: "later p1 p2" and b2: "budget p2 < budget p1"
            using consume_variable_facts(3)[OF wf1 c2] by simp_all
          have wf2: "well_formed p2" using l2 by (rule later_wf)
          have l02: "later p p2" using later_trans[OF l1 l2] .
          show ?thesis
          proof (cases "consume_type DOT p2")
            case (Inl e)
            then show ?thesis using c1 c2 consume_type_facts(1)[OF wf2 _ Inl] by simp
          next
            case Inr3: (Inr bp3)
            obtain b3 p3 where bp3: "bp3 = (b3, p3)" by (cases bp3)
            show ?thesis
            proof (cases b3)
              case False
              then have c3: "consume_type DOT p2 = Inr (False, p3)" using Inr3 bp3 by simp
              then have "p3 = p2" using consume_type_facts(2)[OF wf2 _ c3] by simp
              then show ?thesis using c1 c2 c3 undo[OF l02] by simp
            next
              case True
              then have c3: "consume_type DOT p2 = Inr (True, p3)" using Inr3 bp3 by simp
              have l3: "later p2 p3" and b3: "budget p3 < budget p2"
                using consume_type_facts(3)[OF wf2 _ c3] by simp_all
              have wf3: "well_formed p3" using l3 by (rule later_wf)
              have l03: "later p p3" using later_trans[OF l02 l3] .
              obtain r where r: "parse_expression n p3 = Some r" "parsed_ok p3 r"
                using E[OF wf3] b1 b2 b3 fuel by fastforce
              show ?thesis
              proof (cases r)
                case (Inl e)
                then show ?thesis using c1 c2 c3 r by simp
              next
                case Inr4: (Inr np4)
                obtain expr p4 where np4: "np4 = (expr, p4)" by (cases np4)
                have l4: "later p3 p4" using r(2) Inr4 np4 by simp
                have l04: "later p p4" using later_trans[OF l03 l4] .
                have "budget p4 \<le> budget p3" using later_budget[OF wf3 l4] .
                then have b4: "budget p4 < budget p" using b1 b2 b3 by simp
                show ?thesis
                proof (cases expr)
                  case None
                  then show ?thesis using c1 c2 c3 r Inr4 np4 undo[OF l04] by simp
                next
                  case (Some ex)
                  then show ?thesis using c1 c2 c3 r Inr4 np4 l04 b4 by simp
                qed
              qed
            qed
          qed
        qed
      qed
    qed
  qed
qed

lemma parse_applications_step:
  assumes T: "\<And>q. well_formed q \<Longrightarrow> 2 * budget q + 1 \<le> n \<Longrightarrow>
                 \<exists>r. parse_atomic n q = Some r \<and> parsed_ok q r"
    and L: "\<And>q h. well_formed q \<Longrightarrow> 2 * budget q + 2 \<le> n \<Longrightarrow>
                 \<exists>r. parse_applications n h q = Some r \<and> applied_ok q r"
    and wf: "well_formed p" and fuel: "2 * budget p + 1 \<le> n"
  shows "\<exists>r. parse_applications (Suc n) head p = Some r \<and> applied_ok p r"
proof (cases "tok_type (peek p) = VARIABLE \<or> tok_type (peek p) = O_PAREN")
  case False
  then show ?thesis using later_refl[OF wf] by simp
next
  case True
  obtain r where r: "parse_atomic n p = Some r" "parsed_ok p r"
    using T[OF wf fuel] by blast
  show ?thesis
  proof (cases r)
    case (Inl e)
    then show ?thesis using True r by simp
  next
    case (Inr np)
    obtain next_arg p1 where np: "np = (next_arg, p1)" by (cases np)
    have l1: "later p p1" using r(2) Inr np by simp
    have wf1: "well_formed p1" using l1 by (rule later_wf)
    show ?thesis
    proof (cases next_arg)
      case None
      then show ?thesis using True r Inr np l1 by simp
    next
      case (Some arg)
      then have b1: "budget p1 < budget p" using r(2) Inr np by simp
      obtain r' where r': "parse_applications n (APPLICATION head arg) p1 = Some r'" "applied_ok p1 r'"
        using L[OF wf1, of "APPLICATION head arg"] b1 fuel by fastforce
      have "applied_ok p r'"
      proof (cases r')
        case (Inl e)
        then show ?thesis using r'(2) by simp
      next
        case Inr2: (Inr np2)
        obtain node p2 where np2: "np2 = (node, p2)" by (cases np2)
        then show ?thesis using r'(2) Inr2 later_trans[OF l1, of p2] by simp
      qed
      then show ?thesis using True r Inr np Some r'(1) by simp
    qed
  qed
qed

lemma parse_expression_step:
  assumes A: "\<And>q. well_formed q \<Longrightarrow> 2 * budget q + 1 \<le> n \<Longrightarrow>
                 \<exists>r. parse_abstraction n q = Some r \<and> parsed_ok q r"
    and T: "\<And>q. well_formed q \<Longrightarrow> 2 * budget q + 1 \<le> n \<Longrightarrow>
                 \<exists>r. parse_atomic n q = Some r \<and> parsed_ok q r"
    and L: "\<And>q h. well_formed q \<Longrightarrow> 2 * budget q + 2 \<le> n \<Longrightarrow>
                 \<exists>r. parse_applications n h q = Some r \<and> applied_ok q r"
    and wf: "well_formed p" and fuel: "2 * budget p + 1 \<le> n"
  shows "\<exists>r. parse_expression (Suc n) p = Some r \<and> parsed_ok p r"
proof (cases "tok_type (peek p) = LAMBDA")
  case True
  then show ?thesis using A[OF wf fuel] by simp
next
  case False
  obtain r where r: "parse_atomic n p = Some r" "parsed_ok p r"
    using T[OF wf fuel] by blast
  show ?thesis
  proof (cases r)
    case (Inl e)
    then show ?thesis using False r by simp
  next
    case (Inr np)
    obtain node p1 where np: "np = (node, p1)" by (cases np)
    have l1: "later p p1" using r(2) Inr np by simp
    have wf1: "well_formed p1" using l1 by (rule later_wf)
    show ?thesis
    proof (cases node)
      case None
      then show ?thesis using False r Inr np l1 by simp
    next
      case (Some h)
      then have b1: "budget p1 < budget p" using r(2) Inr np by simp
      obtain r' where r': "parse_applications n h p1 = Some r'" "applied_ok p1 r'"
        using L[OF wf1, of h] b1 fuel by fastforce
      have "parsed_ok p r'"
      proof (cases r')
        case (Inl e)
        then show ?thesis using r'(2) by simp
      next
        case Inr2: (Inr np2)
        obtain node2 p2 where np2: "np2 = (node2, p2)" by (cases np2)
        have l2: "later p1 p2" using r'(2) Inr2 np2 by simp
        have "budget p2 \<le> budget p1" using later_budget[OF wf1 l2] .
        then show ?thesis using Inr2 np2 later_trans[OF l1 l2] b1 by simp
      qed
      then show ?thesis using False r Inr np Some r'(1) by simp
    qed
  qed
qed

lemma parse_functions_total:
  "(\<forall>p. well_formed p \<longrightarrow> 2 * budget p + 2 \<le> n \<longrightarrow>
        (\<exists>r. parse_expression n p = Some r \<and> parsed_ok p r))
   \<and> (\<forall>p. well_formed p \<longrightarrow> 2 * budget p + 1 \<le> n \<longrightarrow>
        (\<exists>r. parse_abstraction n p = Some r \<and> parsed_ok p r))
   \<and> (\<forall>p head. well_formed p \<longrightarrow> 2 * budget p + 2 \<le> n \<longrightarrow>
        (\<exists>r. parse_applications n head p = Some r \<and> applied_ok p r))
   \<and> (\<forall>p. well_formed p \<longrightarrow> 2 * budget p + 1 \<le> n \<longrightarrow>
        (\<exists>r. parse_atomic n p = Some r \<and> parsed_ok p r))"
proof (induction n)
  case 0
  show ?case by simp
next
  case (Suc n)
  have E: "\<And>q. well_formed q \<Longrightarrow> 2 * budget q + 2 \<le> n \<Longrightarrow>
                 \<exists>r. parse_expression n q = Some r \<and> parsed_ok q r"
    and A: "\<And>q. well_formed q \<Longrightarrow> 2 * budget q + 1 \<le> n \<Longrightarrow>
                 \<exists>r. parse_abstraction n q = Some r \<and> parsed_ok q r"
    and L: "\<And>q h. well_formed q \<Longrightarrow> 2 * budget q + 2 \<le> n \<Longrightarrow>
                 \<exists>r. parse_applications n h q = Some r \<and> applied_ok q r"
    and T: "\<And>q. well_formed q \<Longrightarrow> 2 * budget q + 1 \<le> n \<Longrightarrow>
                 \<exists>r. parse_atomic n q = Some r \<and> parsed_ok q r"
    using Suc.IH by blast+
  have 1: "\<exists>r. parse_expression (Suc n) p = Some r \<and> parsed_ok p r"
    if "well_formed p" "2 * budget p + 2 \<le> Suc n" for p
    using parse_expression_step[OF A T L that(1)] that(2) by simp
  have 2: "\<exists>r. parse_abstraction (Suc n) p = Some r \<and> parsed_ok p r"
    if "well_formed p" "2 * budget p + 1 \<le> Suc n" for p
    using parse_abstraction_step[OF E that(1)] that(2) by simp
  have 3: "\<exists>r. parse_applications (Suc n) head p = Some r \<and> applied_ok p r"
    if "well_formed p" "2 * budget p + 2 \<le> Suc n" for p head
    using parse_applications_step[OF T L that(1)] that(2) by simp
  have 4: "\<exists>r. parse_atomic (Suc n) p = Some r \<and> parsed_ok p r"
    if "well_formed p" "2 * budget p + 1 \<le> Suc n" for p
    using parse_atomic_step[OF E that(1)] that(2) by simp
  show ?case using 1 2 3 4 by blast
qed




lemma atomic_fuel:
  assumes E: "\<And>q r. parse_expression n q = Some r \<Longrightarrow> parse_expression m q = Some r"
  shows "parse_atomic (Suc n) p = Some r \<Longrightarrow> parse_atomic (Suc m) p = Some r"
  by (auto split: sum.splits prod.splits bool.splits option.splits if_splits dest: E)

lemma abstraction_fuel:
  assumes E: "\<And>q r. parse_expression n q = Some r \<Longrightarrow> parse_expression m q = Some r"
  shows "parse_abstraction (Suc n) p = Some r \<Longrightarrow> parse_abstraction (Suc m) p = Some r"
  by (auto simp: Let_def split: sum.splits prod.splits bool.splits option.splits if_splits dest: E)

lemma applications_fuel:
  assumes T: "\<And>q r. parse_atomic n q = Some r \<Longrightarrow> parse_atomic m q = Some r"
    and L: "\<And>h q r. parse_applications n h q = Some r \<Longrightarrow> parse_applications m h q = Some r"
    and h: "parse_applications (Suc n) head p = Some r"
  shows "parse_applications (Suc m) head p = Some r"
proof (cases "tok_type (peek p) = VARIABLE \<or> tok_type (peek p) = O_PAREN")
  case False
  then show ?thesis using h by simp
next
  case True
  obtain x where x: "parse_atomic n p = Some x"
    using h True by (cases "parse_atomic n p") auto
  note x' = T[OF x]
  show ?thesis
  proof (cases x)
    case (Inl e)
    then show ?thesis using h True x x' by auto
  next
    case (Inr np)
    obtain node p1 where np: "np = (node, p1)" by (cases np)
    show ?thesis
    proof (cases node)
      case None
      then show ?thesis using h True x x' Inr np by auto
    next
      case (Some arg)
      then have "parse_applications n (APPLICATION head arg) p1 = Some r"
        using h True x Inr np by simp
      then show ?thesis using L True x' Inr np Some by simp
    qed
  qed
qed

lemma expression_fuel:
  assumes A: "\<And>q r. parse_abstraction n q = Some r \<Longrightarrow> parse_abstraction m q = Some r"
    and T: "\<And>q r. parse_atomic n q = Some r \<Longrightarrow> parse_atomic m q = Some r"
    and L: "\<And>h q r. parse_applications n h q = Some r \<Longrightarrow> parse_applications m h q = Some r"
    and h: "parse_expression (Suc n) p = Some r"
  shows "parse_expression (Suc m) p = Some r"
proof (cases "tok_type (peek p) = LAMBDA")
  case True
  then show ?thesis using h A by simp
next
  case False
  obtain x where x: "parse_atomic n p = Some x"
    using h False by (cases "parse_atomic n p") auto
  note x' = T[OF x]
  show ?thesis
  proof (cases x)
    case (Inl e)
    then show ?thesis using h False x x' by auto
  next
    case (Inr np)
    obtain node p1 where np: "np = (node, p1)" by (cases np)
    show ?thesis
    proof (cases node)
      case None
      then show ?thesis using h False x x' Inr np by auto
    next
      case (Some hd)
      then have "parse_applications n hd p1 = Some r"
        using h False x Inr np by simp
      then show ?thesis using L False x' Inr np Some by simp
    qed
  qed
qed

lemma fuel_Suc:
  "(\<forall>p r. parse_expression n p = Some r \<longrightarrow> parse_expression (Suc n) p = Some r)
   \<and> (\<forall>p r. parse_abstraction n p = Some r \<longrightarrow> parse_abstraction (Suc n) p = Some r)
   \<and> (\<forall>h p r. parse_applications n h p = Some r \<longrightarrow> parse_applications (Suc n) h p = Some r)
   \<and> (\<forall>p r. parse_atomic n p = Some r \<longrightarrow> parse_atomic (Suc n) p = Some r)"
proof (induction n)
  case 0
  show ?case by simp
next
  case (Suc n)
  have E: "\<And>q r. parse_expression n q = Some r \<Longrightarrow> parse_expression (Suc n) q = Some r"
    and A: "\<And>q r. parse_abstraction n q = Some r \<Longrightarrow> parse_abstraction (Suc n) q = Some r"
    and L: "\<And>h q r. parse_applications n h q = Some r \<Longrightarrow> parse_applications (Suc n) h q = Some r"
    and T: "\<And>q r. parse_atomic n q = Some r \<Longrightarrow> parse_atomic (Suc n) q = Some r"
    using Suc.IH by blast+
  show ?case
    using expression_fuel[OF A T L] abstraction_fuel[OF E] applications_fuel[OF T L]
      atomic_fuel[OF E]
    by blast
qed

lemma fuel_mono:
  assumes "n \<le> m"
  shows "parse_expression n p = Some r \<Longrightarrow> parse_expression m p = Some r"
    and "parse_abstraction n p = Some r \<Longrightarrow> parse_abstraction m p = Some r"
    and "parse_applications n h p = Some r \<Longrightarrow> parse_applications m h p = Some r"
    and "parse_atomic n p = Some r \<Longrightarrow> parse_atomic m p = Some r"
  using assms
proof (induction m)
  case 0
  { case 1 then show ?case by simp }
  { case 2 then show ?case by simp }
  { case 3 then show ?case by simp }
  { case 4 then show ?case by simp }
next
  case (Suc m)
  { case 1 then show ?case using Suc.IH(1) fuel_Suc[of m] by (cases "n = Suc m") auto }
  { case 2 then show ?case using Suc.IH(2) fuel_Suc[of m] by (cases "n = Suc m") auto }
  { case 3 then show ?case using Suc.IH(3) fuel_Suc[of m] by (cases "n = Suc m") auto }
  { case 4 then show ?case using Suc.IH(4) fuel_Suc[of m] by (cases "n = Suc m") auto }
qed


lemma gives_unique:
  shows "expression_gives p r \<Longrightarrow> expression_gives p r' \<Longrightarrow> r = r'"
    and "abstraction_gives p r \<Longrightarrow> abstraction_gives p r' \<Longrightarrow> r = r'"
    and "applications_gives h p r \<Longrightarrow> applications_gives h p r' \<Longrightarrow> r = r'"
    and "atomic_gives p r \<Longrightarrow> atomic_gives p r' \<Longrightarrow> r = r'"
proof -
  show "r = r'" if a: "expression_gives p r" "expression_gives p r'"
  proof -
    obtain n n' where "parse_expression n p = Some r" "parse_expression n' p = Some r'"
      using a by (auto simp: expression_gives_def)
    then show ?thesis
      using fuel_mono(1)[of n "max n n'" p r] fuel_mono(1)[of n' "max n n'" p r'] by simp
  qed
  show "r = r'" if a: "abstraction_gives p r" "abstraction_gives p r'"
  proof -
    obtain n n' where "parse_abstraction n p = Some r" "parse_abstraction n' p = Some r'"
      using a by (auto simp: abstraction_gives_def)
    then show ?thesis
      using fuel_mono(2)[of n "max n n'" p r] fuel_mono(2)[of n' "max n n'" p r'] by simp
  qed
  show "r = r'" if a: "applications_gives h p r" "applications_gives h p r'"
  proof -
    obtain n n' where "parse_applications n h p = Some r" "parse_applications n' h p = Some r'"
      using a by (auto simp: applications_gives_def)
    then show ?thesis
      using fuel_mono(3)[of n "max n n'" h p r] fuel_mono(3)[of n' "max n n'" h p r'] by simp
  qed
  show "r = r'" if a: "atomic_gives p r" "atomic_gives p r'"
  proof -
    obtain n n' where "parse_atomic n p = Some r" "parse_atomic n' p = Some r'"
      using a by (auto simp: atomic_gives_def)
    then show ?thesis
      using fuel_mono(4)[of n "max n n'" p r] fuel_mono(4)[of n' "max n n'" p r'] by simp
  qed
qed



























lemma parse_expression_total:
  "well_formed p \<Longrightarrow> 2 * budget p + 2 \<le> n \<Longrightarrow>
   \<exists>r. parse_expression n p = Some r \<and> parsed_ok p r"
  using parse_functions_total[of n] by blast

lemma parse_atomic_total:
  "well_formed p \<Longrightarrow> 2 * budget p + 1 \<le> n \<Longrightarrow>
   \<exists>r. parse_atomic n p = Some r \<and> parsed_ok p r"
  using parse_functions_total[of n] by blast

lemma gives_sound:
  assumes "well_formed p"
  shows "expression_gives p r \<Longrightarrow> parsed_ok p r"
    and "atomic_gives p r \<Longrightarrow> parsed_ok p r"
proof -
  show "parsed_ok p r" if a: "expression_gives p r"
  proof -
    obtain r0 where r0: "parse_expression (2 * budget p + 2) p = Some r0" "parsed_ok p r0"
      using parse_expression_total[OF assms, of "2 * budget p + 2"] by auto
    then have "expression_gives p r0" unfolding expression_gives_def by blast
    then show ?thesis using gives_unique(1)[OF a] r0(2) by simp
  qed
  show "parsed_ok p r" if a: "atomic_gives p r"
  proof -
    obtain r0 where r0: "parse_atomic (2 * budget p + 1) p = Some r0" "parsed_ok p r0"
      using parse_atomic_total[OF assms, of "2 * budget p + 1"] by auto
    then have "atomic_gives p r0" unfolding atomic_gives_def by blast
    then show ?thesis using gives_unique(4)[OF a] r0(2) by simp
  qed
qed






















lemma lex_all_ends:
  "length (lexer_text lx) - lexer_pos lx < n \<Longrightarrow>
   \<exists>ts. lex_all n lx = map Inr ts @ [Inl InvalidTokenError]
      \<or> (lex_all n lx = map Inr ts \<and> ts \<noteq> [] \<and> tok_type (last ts) = EOF_TOK)"
proof (induction n arbitrary: lx)
  case 0
  then show ?case by simp
next
  case (Suc n)
  show ?case
  proof (cases "lexer_next_token lx")
    case (Inl e)
    then have "lex_all (Suc n) lx = map Inr [] @ [Inl InvalidTokenError]"
      using lexer_next_token_error[OF Inl] by simp
    then show ?thesis by blast
  next
    case (Inr tl)
    obtain t lx' where tl: "tl = (t, lx')" by (cases tl)
    note l = Inr[unfolded tl]
    note f = lexer_next_token_facts[OF l]
    show ?thesis
    proof (cases "tok_type t = EOF_TOK")
      case True
      then have "lex_all (Suc n) lx = map Inr [t] \<and> [t] \<noteq> [] \<and> tok_type (last [t]) = EOF_TOK"
        using l by simp
      then show ?thesis by blast
    next
      case False
      then have "length (lexer_text lx') - lexer_pos lx' < n"
        using f(1) f(3) Suc.prems by simp
      from Suc.IH[OF this] obtain ts where ts:
        "lex_all n lx' = map Inr ts @ [Inl InvalidTokenError]
         \<or> (lex_all n lx' = map Inr ts \<and> ts \<noteq> [] \<and> tok_type (last ts) = EOF_TOK)"
        by blast
      have "lex_all (Suc n) lx = Inr t # lex_all n lx'" using l False by simp
      then have "lex_all (Suc n) lx = map Inr (t # ts) @ [Inl InvalidTokenError]
         \<or> (lex_all (Suc n) lx = map Inr (t # ts) \<and> t # ts \<noteq> []
              \<and> tok_type (last (t # ts)) = EOF_TOK)"
        using ts by auto
      then show ?thesis by blast
    qed
  qed
qed

lemma token_stream_ends:
  "\<exists>ts. token_stream str = map Inr ts @ [Inl InvalidTokenError]
     \<or> (token_stream str = map Inr ts \<and> ts \<noteq> [] \<and> tok_type (last ts) = EOF_TOK)"
  unfolding token_stream_def by (rule lex_all_ends) simp
















lemma spell_append: "spell (xs @ ys) = spell xs @ spell ys"
  by (simp add: spell_def)

















section \<open>End-to-end examples\<close>

text \<open>
  Claim C6. In De Bruijn mode, the source \<^verbatim>\<open>\x.x\<close> is converted and rendered as
  \<^verbatim>\<open>{\<lambda>, 1}\<close> and the source \<^verbatim>\<open>\x.\y.x\<close> as \<^verbatim>\<open>{\<lambda>, {\<lambda>, 2}}\<close>, whatever the addresses
  of the objects (the backslash is the character \<open>0x5C\<close>).
\<close>

theorem display_dbj_examples:
  "display_dbj al ([CHR 0x5C] @ ''x.x'') = Some (Inr (''{'' @ lambda_marker @ '', 1}''))
   \<and> display_dbj al ([CHR 0x5C] @ ''x.'' @ [CHR 0x5C] @ ''y.x'') =
       Some (Inr (''{'' @ lambda_marker @ '', {'' @ lambda_marker @ '', 2}}''))"
  by code_simp

end
